theory Spec2Isabelle
  imports Complex_Main
begin

section \<open>JavaScript values of a request body\<close>

text \<open>
  The values a JSON request body can hold for a field, plus \<open>JUndefined\<close> for a field that
  is missing. \<open>JObject\<close> stands for any array or object (always truthy).
\<close>

datatype jsval = JUndefined | JNull | JBool bool | JNumber rat | JString string | JObject

text \<open>A JavaScript number as the code uses it after \<open>parseInt\<close>: an integer or NaN.\<close>

datatype jsnum = NaN | Num int

text \<open>JavaScript truthiness, as tested by \<open>!query\<close>, \<open>!count\<close> and \<open>a && b\<close>.\<close>

fun truthy :: "jsval \<Rightarrow> bool" where
  "truthy JUndefined = False"
| "truthy JNull = False"
| "truthy (JBool b) = b"
| "truthy (JNumber n) = (n \<noteq> 0)"
| "truthy (JString s) = (s \<noteq> [])"
| "truthy JObject = True"

section \<open>The job state machine (\<open>processingState\<close> and \<open>POST /api/scrape\<close>)\<close>

text \<open>\<open>processId\<close> is the string \<open>proc_\<close> followed by \<open>Date.now()\<close>; the model keeps the timestamp.\<close>

datatype procid = Proc int

record processingState =
  isProcessing :: bool
  currentQuery :: jsval
  currentCount :: jsnum
  startTime :: "int option"
  processId :: "procid option"

definition initialState :: processingState where
  "initialState = \<lparr>isProcessing = False, currentQuery = JString [], currentCount = Num 0,
     startTime = None, processId = None\<rparr>"

text \<open>
  The body of a start request. A missing \<open>visitInternalPages\<close> (\<open>JUndefined\<close>) takes the
  default \<open>true\<close> of the destructuring pattern; \<open>defaultTrue\<close> is that default, which the
  parameter \<open>visitInternalPages = true\<close> of the scraping functions has as well.
\<close>

record request =
  query :: jsval
  count :: jsval
  visitInternalPages :: jsval

definition defaultTrue :: "jsval \<Rightarrow> jsval" where
  "defaultTrue v = (if v = JUndefined then JBool True else v)"

definition visitFlag :: "request \<Rightarrow> jsval" where
  "visitFlag req = defaultTrue (visitInternalPages req)"

datatype response =
    BadRequest
  | Conflict jsval jsnum int
  | Accepted "procid option" jsval jsnum

text \<open>The call \<open>scrapeGoogleMaps(query, parseInt(count), visitInternalPages)\<close> made by an accepted start.\<close>

record launch =
  searchQuery :: jsval
  targetCount :: jsnum
  visitInternal :: jsval

text \<open>
  \<open>Date.now() - processingState.startTime\<close>: a \<open>null\<close> start time counts as 0 in the
  subtraction.
\<close>

definition elapsedSince :: "int \<Rightarrow> int option \<Rightarrow> int" where
  "elapsedSince now st = now - (case st of None \<Rightarrow> 0 | Some t \<Rightarrow> t)"

text \<open>
  The synchronous part of the handler, up to the response. \<open>parseInt\<close> is the JavaScript
  builtin, taken as a parameter; \<open>now1\<close> and \<open>now2\<close> are the first and second readings of
  \<open>Date.now()\<close> the handler makes. The result is the new state, the response, and the
  background run that was started, if any.
\<close>

definition post_scrape ::
  "(jsval \<Rightarrow> jsnum) \<Rightarrow> processingState \<Rightarrow> request \<Rightarrow> int \<Rightarrow> int
     \<Rightarrow> processingState \<times> response \<times> launch option" where
  "post_scrape parseInt s req now1 now2 =
     (if \<not> truthy (query req) \<or> \<not> truthy (count req) then (s, BadRequest, None)
      else if isProcessing s then
        (s, Conflict (currentQuery s) (currentCount s) (elapsedSince now1 (startTime s)), None)
      else
        (let s' = s\<lparr>isProcessing := True, currentQuery := query req,
                     currentCount := parseInt (count req), startTime := Some now1,
                     processId := Some (Proc now2)\<rparr>
         in (s', Accepted (processId s') (currentQuery s') (currentCount s'),
             Some \<lparr>searchQuery = query req, targetCount = parseInt (count req),
                   visitInternal = visitFlag req\<rparr>)))"

text \<open>
  How the awaited background part ends: the scrape promise rejects, or it resolves and
  the export file is then written (\<open>True\<close>) or writing it throws (\<open>False\<close>).
\<close>

datatype outcome = ScrapeRejected | ScrapeResolved bool

text \<open>Both the success path and the \<open>catch\<close> path assign the same five fields.\<close>

definition clearState :: "processingState \<Rightarrow> processingState" where
  "clearState s = s\<lparr>isProcessing := False, currentQuery := JString [], currentCount := Num 0,
     startTime := None, processId := None\<rparr>"

text \<open>
  The file name is built with \<open>query.replace(...)\<close>, which throws when the query is not a
  string; then no file is written and the \<open>catch\<close> path runs.
\<close>

definition exported :: "launch \<Rightarrow> outcome \<Rightarrow> bool" where
  "exported l oc = (case oc of ScrapeRejected \<Rightarrow> False
     | ScrapeResolved w \<Rightarrow> (case searchQuery l of JString q \<Rightarrow> w | _ \<Rightarrow> False))"

definition complete :: "outcome \<Rightarrow> processingState \<Rightarrow> processingState" where
  "complete oc s = (case oc of ScrapeRejected \<Rightarrow> clearState s | ScrapeResolved w \<Rightarrow> clearState s)"

text \<open>
  The server as a whole: the shared state, the background runs in flight (oldest first)
  and the queries of the exports written so far.
\<close>

record server =
  pstate :: processingState
  inflight :: "launch list"
  exports :: "jsval list"

definition initialServer :: server where
  "initialServer = \<lparr>pstate = initialState, inflight = [], exports = []\<rparr>"

datatype event = Start request int int | Finish outcome

text \<open>
  One event: a start request is answered; a \<open>Finish\<close> ends the oldest run in flight
  (there is nothing to end when none is in flight).
\<close>

fun step :: "(jsval \<Rightarrow> jsnum) \<Rightarrow> server \<Rightarrow> event \<Rightarrow> server \<times> response list" where
  "step parseInt sv (Start req now1 now2) =
     (case post_scrape parseInt (pstate sv) req now1 now2 of
        (s', r, l) \<Rightarrow> (sv\<lparr>pstate := s', inflight := inflight sv @ (case l of None \<Rightarrow> [] | Some x \<Rightarrow> [x])\<rparr>, [r]))"
| "step parseInt sv (Finish oc) =
     (case inflight sv of
        [] \<Rightarrow> (sv, [])
      | l # ls \<Rightarrow> (sv\<lparr>pstate := complete oc (pstate sv), inflight := ls,
                       exports := exports sv @ (if exported l oc then [searchQuery l] else [])\<rparr>, []))"


definition idle :: "processingState \<Rightarrow> bool" where
  "idle s = (\<not> isProcessing s \<and> currentQuery s = JString [] \<and> currentCount s = Num 0
     \<and> startTime s = None \<and> processId s = None)"

section \<open>Strings and regular expressions as the contact miner uses them\<close>

text \<open>
  A string is the list of its code units; the model covers code units below 256. The
  ASCII letters are the codes 65 to 90 (upper case) and 97 to 122 (lower case).
\<close>

definition code :: "char \<Rightarrow> int" where
  "code c = of_char c"

definition isLower :: "char \<Rightarrow> bool" where
  "isLower c = (97 \<le> code c \<and> code c \<le> 122)"

definition isUpper :: "char \<Rightarrow> bool" where
  "isUpper c = (65 \<le> code c \<and> code c \<le> 90)"

definition asciiUpper :: "char \<Rightarrow> char" where
  "asciiUpper c =
     (case map_of (zip ''abcdefghijklmnopqrstuvwxyz'' ''ABCDEFGHIJKLMNOPQRSTUVWXYZ'') c of
        None \<Rightarrow> c | Some u \<Rightarrow> u)"

definition asciiLower :: "char \<Rightarrow> char" where
  "asciiLower c =
     (case map_of (zip ''ABCDEFGHIJKLMNOPQRSTUVWXYZ'' ''abcdefghijklmnopqrstuvwxyz'') c of
        None \<Rightarrow> c | Some u \<Rightarrow> u)"

text \<open>
  \<open>String.prototype.toLowerCase\<close>: besides the ASCII letters, the capital letters of the
  range \<open>0xC0 .. 0xDE\<close> (all but the multiplication sign \<open>0xD7\<close>) move up by 32.
\<close>

definition lowerChar :: "char \<Rightarrow> char" where
  "lowerChar c =
     (if 0xC0 \<le> code c \<and> code c \<le> 0xDE \<and> code c \<noteq> 0xD7
      then char_of (code c + 32) else asciiLower c)"

definition toLowerCase :: "string \<Rightarrow> string" where
  "toLowerCase s = map lowerChar s"

definition startsWith :: "string \<Rightarrow> string \<Rightarrow> bool" where
  "startsWith s p = (take (length p) s = p)"

definition endsWith :: "string \<Rightarrow> string \<Rightarrow> bool" where
  "endsWith s p = (length p \<le> length s \<and> drop (length s - length p) s = p)"

fun str_includes :: "string \<Rightarrow> string \<Rightarrow> bool" where
  "str_includes [] p = (p = [])"
| "str_includes (c # cs) p = (if startsWith (c # cs) p then True else str_includes cs p)"

text \<open>\<open>xs.join(', ')\<close>.\<close>

fun join :: "string list \<Rightarrow> string" where
  "join [] = []"
| "join [x] = x"
| "join (x # xs) = x @ '', '' @ join xs"

text \<open>
  \<open>[...new Set(xs)]\<close>: the elements of \<open>xs\<close> in order of first occurrence. \<open>addAll\<close> adds
  the elements one by one to the set built so far, as the \<open>Set\<close> constructor does.
\<close>

fun addAll :: "'a list \<Rightarrow> 'a list \<Rightarrow> 'a list" where
  "addAll acc [] = acc"
| "addAll acc (x # xs) = addAll (if x \<in> set acc then acc else acc @ [x]) xs"

definition newSet :: "'a list \<Rightarrow> 'a list" where
  "newSet xs = addAll [] xs"

text \<open>
  The regular expressions of the source, all with the flags \<open>g\<close> and \<open>i\<close>. A character
  class is a list of ranges and single characters; \<open>Space\<close> is \<open>\s\<close>; \<open>AtLeast n r\<close> is
  \<open>r{n,}\<close>; every quantifier is greedy.
\<close>

datatype item = Range char char | One char

datatype regex =
    Class "item list"
  | Lit char
  | Space
  | Seq regex regex
  | Opt regex
  | Star regex
  | Plus regex
  | AtLeast nat regex

fun in_item :: "item \<Rightarrow> char \<Rightarrow> bool" where
  "in_item (Range lo hi) c = (code lo \<le> code c \<and> code c \<le> code hi)"
| "in_item (One a) c = (c = a)"

text \<open>
  Under the flag \<open>i\<close> two characters match when their canonical (upper-case) forms agree,
  and a character outside ASCII never matches an ASCII one. For the ASCII patterns of
  the source this means: a pattern character matches itself and its other-case form, and
  a character is in a class when it or one of its case forms is.
\<close>

definition lit_ok :: "char \<Rightarrow> char \<Rightarrow> bool" where
  "lit_ok p c = (if c = p then True else if c = asciiUpper p then True else c = asciiLower p)"

fun in_items :: "item list \<Rightarrow> char \<Rightarrow> bool" where
  "in_items [] c = False"
| "in_items (it # its) c = (if in_item it c then True else in_items its c)"

definition in_class :: "item list \<Rightarrow> char \<Rightarrow> bool" where
  "in_class its c =
     (if in_items its c then True
      else if isLower c then in_items its (asciiUpper c)
      else if isUpper c then in_items its (asciiLower c)
      else False)"

text \<open>\<open>\s\<close> on code units below 256: tab, line feed, vertical tab, form feed, carriage
  return, space and the no-break space.\<close>

definition isSpace :: "char \<Rightarrow> bool" where
  "isSpace c = (c \<in> set [CHR 0x09, CHR 0x0A, CHR 0x0B, CHR 0x0C, CHR 0x0D, CHR 0x20, CHR 0xA0])"

text \<open>The rank of a regular expression, by which the matcher's recursion goes down.\<close>

fun rk :: "regex \<Rightarrow> nat" where
  "rk (Class its) = 0"
| "rk (Lit p) = 0"
| "rk Space = 0"
| "rk (Seq r1 r2) = Suc (rk r1 + rk r2)"
| "rk (Opt r) = Suc (rk r)"
| "rk (Star r) = Suc (rk r)"
| "rk (Plus r) = Suc (Suc (rk r))"
| "rk (AtLeast n r) = Suc (Suc (rk r)) + n"

text \<open>
  The backtracking matcher. \<open>ms r s\<close> lists, in the order in which a backtracking engine
  tries them, the rests of \<open>s\<close> left after a match of \<open>r\<close> at the start of \<open>s\<close>; the head of
  the list is the match the engine reports. A greedy quantifier tries one more
  iteration before it tries to stop, and an iteration of \<open>*\<close> that consumes nothing is
  rejected.
\<close>

function ms :: "regex \<Rightarrow> string \<Rightarrow> string list" where
  "ms (Class its) s = (case s of [] \<Rightarrow> [] | c # cs \<Rightarrow> if in_class its c then [cs] else [])"
| "ms (Lit p) s = (case s of [] \<Rightarrow> [] | c # cs \<Rightarrow> if lit_ok p c then [cs] else [])"
| "ms Space s = (case s of [] \<Rightarrow> [] | c # cs \<Rightarrow> if isSpace c then [cs] else [])"
| "ms (Seq r1 r2) s = concat (map (ms r2) (ms r1 s))"
| "ms (Opt r) s = ms r s @ [s]"
| "ms (Star r) s =
     concat (map (\<lambda>s'. if length s' < length s then ms (Star r) s' else []) (ms r s)) @ [s]"
| "ms (Plus r) s = concat (map (ms (Star r)) (ms r s))"
| "ms (AtLeast n r) s =
     (case n of 0 \<Rightarrow> ms (Star r) s | Suc m \<Rightarrow> concat (map (ms (AtLeast m r)) (ms r s)))"
  by pat_completeness auto
termination
  by (relation "inv_image (less_than <*lex*> less_than) (\<lambda>(r, s). (rk r, length s))") auto

declare ms.simps [simp del]

text \<open>A sequence of regular expressions, and a literal string as a sequence of characters.\<close>

fun cat :: "regex list \<Rightarrow> regex" where
  "cat [] = Opt (Class [])"
| "cat [r] = r"
| "cat (r # rs) = Seq r (cat rs)"

definition lits :: "string \<Rightarrow> regex list" where
  "lits l = map Lit l"

text \<open>One attempt at the start of \<open>s\<close>: the rest after the match, if there is a match.\<close>

definition exec :: "regex \<Rightarrow> string \<Rightarrow> string option" where
  "exec r s = (case ms r s of [] \<Rightarrow> None | s' # _ \<Rightarrow> Some s')"

text \<open>
  \<open>s.match(r) || []\<close> for a global \<open>r\<close>: the matches from left to right, each search
  starting where the last match ended (one further on after an empty match).
\<close>

function matchAll :: "regex \<Rightarrow> string \<Rightarrow> string list" where
  "matchAll r s =
     (case exec r s of
        None \<Rightarrow> (case s of [] \<Rightarrow> [] | c # cs \<Rightarrow> matchAll r cs)
      | Some s' \<Rightarrow>
          if length s' < length s then take (length s - length s') s # matchAll r s'
          else [] # (case s of [] \<Rightarrow> [] | c # cs \<Rightarrow> matchAll r cs))"
  by pat_completeness auto
termination
  by (relation "measure (\<lambda>(r, s). length s)") auto

text \<open>\<open>s.replace(r, rep)\<close> for a global \<open>r\<close> and a replacement without \<open>$\<close> patterns.\<close>

function replaceAll :: "regex \<Rightarrow> string \<Rightarrow> string \<Rightarrow> string" where
  "replaceAll r rep s =
     (case exec r s of
        None \<Rightarrow> (case s of [] \<Rightarrow> [] | c # cs \<Rightarrow> c # replaceAll r rep cs)
      | Some s' \<Rightarrow>
          if length s' < length s then rep @ replaceAll r rep s'
          else rep @ (case s of [] \<Rightarrow> [] | c # cs \<Rightarrow> c # replaceAll r rep cs))"
  by pat_completeness auto
termination
  by (relation "measure (\<lambda>(r, rep, s). length s)") auto

declare matchAll.simps [simp del]
declare replaceAll.simps [simp del]

section \<open>The contact miner (\<open>extractFromPage\<close>, from the page content on)\<close>

text \<open>\<open>[a-zA-Z0-9._%+-]\<close>, \<open>[a-zA-Z0-9.-]\<close>, \<open>[a-zA-Z]\<close> and \<open>[a-zA-Z0-9._]\<close>.\<close>

definition localChars :: "item list" where
  "localChars = [Range CHR ''a'' CHR ''z'', Range CHR ''A'' CHR ''Z'', Range CHR ''0'' CHR ''9'',
     One CHR ''.'', One CHR ''_'', One CHR ''%'', One CHR ''+'', One CHR ''-'']"

definition domainChars :: "item list" where
  "domainChars = [Range CHR ''a'' CHR ''z'', Range CHR ''A'' CHR ''Z'', Range CHR ''0'' CHR ''9'',
     One CHR ''.'', One CHR ''-'']"

definition letters :: "item list" where
  "letters = [Range CHR ''a'' CHR ''z'', Range CHR ''A'' CHR ''Z'']"

definition handleChars :: "item list" where
  "handleChars = [Range CHR ''a'' CHR ''z'', Range CHR ''A'' CHR ''Z'', Range CHR ''0'' CHR ''9'',
     One CHR ''.'', One CHR ''_'']"

text \<open>\<open>/[a-zA-Z0-9._%+-]+@[a-zA-Z0-9.-]+\.[a-zA-Z]{2,}/gi\<close>\<close>

definition emailRe :: regex where
  "emailRe = cat [Plus (Class localChars), Lit CHR ''@'', Plus (Class domainChars),
     Lit CHR ''.'', AtLeast 2 (Class letters)]"

text \<open>\<open>/[a-zA-Z0-9._%+-]+\s*\[\s*at\s*\]\s*[a-zA-Z0-9.-]+\s*\[\s*dot\s*\]\s*[a-zA-Z]{2,}/gi\<close>\<close>

definition obfuscatedRe :: regex where
  "obfuscatedRe = cat ([Plus (Class localChars), Star Space, Lit CHR ''['', Star Space]
     @ lits ''at'' @ [Star Space, Lit CHR '']'', Star Space, Plus (Class domainChars),
        Star Space, Lit CHR ''['', Star Space]
     @ lits ''dot'' @ [Star Space, Lit CHR '']'', Star Space, AtLeast 2 (Class letters)])"

text \<open>\<open>/\s*\[\s*at\s*\]\s*/gi\<close> and \<open>/\s*\[\s*dot\s*\]\s*/gi\<close>\<close>

definition atRe :: regex where
  "atRe = cat ([Star Space, Lit CHR ''['', Star Space] @ lits ''at''
     @ [Star Space, Lit CHR '']'', Star Space])"

definition dotRe :: regex where
  "dotRe = cat ([Star Space, Lit CHR ''['', Star Space] @ lits ''dot''
     @ [Star Space, Lit CHR '']'', Star Space])"

text \<open>\<open>(?:https?:\/\/)?\<close> and \<open>(?:www\.)?\<close>\<close>

definition schemeRe :: regex where
  "schemeRe = Opt (cat (lits ''http'' @ [Opt (Lit CHR ''s'')] @ lits ''://''))"

definition wwwRe :: regex where
  "wwwRe = Opt (cat (lits ''www.''))"

text \<open>\<open>/(?:https?:\/\/)?(?:www\.)?facebook\.com\/[a-zA-Z0-9._%+-]+/gi\<close>\<close>

definition facebookRe :: regex where
  "facebookRe = cat [schemeRe, wwwRe, cat (lits ''facebook.com/''), Plus (Class localChars)]"

text \<open>\<open>/(?:https?:\/\/)?(?:www\.)?instagram\.com\/[a-zA-Z0-9._]+/gi\<close>\<close>

definition instagramRe :: regex where
  "instagramRe = cat [schemeRe, wwwRe, cat (lits ''instagram.com/''), Plus (Class handleChars)]"

record contactInfo =
  emails :: "string list"
  facebook :: "string list"
  instagram :: "string list"

definition emptyInfo :: contactInfo where
  "emptyInfo = \<lparr>emails = [], facebook = [], instagram = []\<rparr>"

text \<open>The filter of the first email pass.\<close>

definition emailFilter :: "string \<Rightarrow> bool" where
  "emailFilter email =
     (let lower = toLowerCase email
      in \<not> endsWith lower ''.png'' \<and> \<not> endsWith lower ''.jpg'' \<and> \<not> endsWith lower ''.jpeg''
         \<and> \<not> str_includes lower ''example'' \<and> \<not> str_includes lower ''test@'' \<and> str_includes lower ''.'')"

definition obfuscatedEmails :: "string \<Rightarrow> string list" where
  "obfuscatedEmails html =
     map (\<lambda>email. replaceAll dotRe ''.'' (replaceAll atRe ''@'' email)) (matchAll obfuscatedRe html)"

definition mineEmails :: "string \<Rightarrow> string list" where
  "mineEmails html =
     (let emails = newSet (filter emailFilter (matchAll emailRe html))
      in newSet (emails @ obfuscatedEmails html))"

text \<open>\<open>link.startsWith('http') ? link : 'https://' + link\<close>\<close>

definition absolute :: "string \<Rightarrow> string" where
  "absolute link = (if startsWith link ''http'' then link else ''https://'' @ link)"

definition mineFacebook :: "string \<Rightarrow> string list" where
  "mineFacebook html =
     newSet (filter (\<lambda>link. \<not> str_includes link ''/login'' \<and> \<not> str_includes link ''/share'')
       (map absolute (matchAll facebookRe html)))"

definition instagramLinks :: "string \<Rightarrow> string list" where
  "instagramLinks html = newSet (map absolute (matchAll instagramRe html))"

definition isProfile :: "string \<Rightarrow> bool" where
  "isProfile link = (\<not> str_includes link ''/p/'' \<and> \<not> str_includes link ''/reel/''
     \<and> \<not> str_includes link ''/tv/'' \<and> \<not> str_includes link ''/stories/'')"

text \<open>
  The choice made from the raw links: the profile links, or the first raw link when
  there is no profile link.
\<close>

definition selectProfiles :: "string list \<Rightarrow> string list" where
  "selectProfiles links =
     (let profiles = filter isProfile links
      in if length profiles = 0 \<and> length links > 0 then [links ! 0] else profiles)"

definition mineInstagram :: "string \<Rightarrow> string list" where
  "mineInstagram html = selectProfiles (instagramLinks html)"

text \<open>The bundle \<open>{ emails, facebook, instagram }\<close> mined from one page content.\<close>

definition mine :: "string \<Rightarrow> contactInfo" where
  "mine html = \<lparr>emails = mineEmails html, facebook = mineFacebook html,
     instagram = mineInstagram html\<rparr>"

section \<open>Website enrichment (\<open>extractFromPage\<close>, \<open>findInternalPages\<close>,
  \<open>extractContactInfoFromWebsite\<close>)\<close>

text \<open>
  The web as the headless browser shows it. \<open>content url\<close> is the page content after
  \<open>page.goto(url)\<close> and the settle delays, \<open>None\<close> when any of these steps throws;
  \<open>anchors url\<close> are the \<open>href\<close>s of the \<open>a[href]\<close> elements of the page in document order,
  \<open>None\<close> when navigation throws; \<open>hostname u\<close> is \<open>new URL(u).hostname\<close>, \<open>None\<close> when
  the constructor throws. For the browser session opened to enrich a website:
  \<open>launchOk\<close> says that \<open>puppeteer.launch\<close> succeeds, \<open>newPageOk\<close> that opening and
  configuring the page succeeds, \<open>closeOk\<close> that \<open>browser.close()\<close> succeeds.
\<close>

record web =
  content :: "string \<Rightarrow> string option"
  anchors :: "string \<Rightarrow> string list option"
  hostname :: "string \<Rightarrow> string option"
  launchOk :: "string \<Rightarrow> bool"
  newPageOk :: "string \<Rightarrow> bool"
  closeOk :: "string \<Rightarrow> bool"

text \<open>\<open>extractFromPage\<close>: its \<open>catch\<close> turns every failure into the empty bundle.\<close>

definition extractFromPage :: "web \<Rightarrow> string \<Rightarrow> contactInfo" where
  "extractFromPage w url = (case content w url of None \<Rightarrow> emptyInfo | Some html \<Rightarrow> mine html)"

definition pageKeywords :: "string list" where
  "pageKeywords = [''contact'', ''about'', ''team'', ''staff'', ''reach'', ''get-in-touch'']"

text \<open>
  \<open>findInternalPages\<close>: links of the same host whose lower-cased text contains a keyword,
  the first five of them, then without repetitions. A link that is not a URL is dropped;
  a failure of navigation or of \<open>new URL(base)\<close> gives the empty list.
\<close>

definition sameHostKeyword :: "web \<Rightarrow> string \<Rightarrow> string \<Rightarrow> bool" where
  "sameHostKeyword w baseHost href =
     (case hostname w href of None \<Rightarrow> False
      | Some h \<Rightarrow> h = baseHost \<and> list_ex (\<lambda>keyword. str_includes (toLowerCase href) keyword) pageKeywords)"

definition findInternalPages :: "web \<Rightarrow> string \<Rightarrow> string list" where
  "findInternalPages w baseUrl =
     (case anchors w baseUrl of None \<Rightarrow> []
      | Some links \<Rightarrow>
          (case hostname w baseUrl of None \<Rightarrow> []
           | Some baseHost \<Rightarrow> newSet (take 5 (filter (sameHostKeyword w baseHost) links))))"

text \<open>The merge of one internal page's result into the running bundle.\<close>

definition mergeInfo :: "contactInfo \<Rightarrow> contactInfo \<Rightarrow> contactInfo" where
  "mergeInfo contactInfo internalInfo =
     \<lparr>emails = newSet (emails contactInfo @ emails internalInfo),
      facebook = newSet (facebook contactInfo @ facebook internalInfo),
      instagram = newSet (instagram contactInfo @ instagram internalInfo)\<rparr>"

text \<open>
  The loop over the internal pages. The result is the final bundle and the pages handed
  to \<open>extractFromPage\<close>, in order. Nothing in the body of the loop's \<open>try\<close> throws
  (\<open>extractFromPage\<close> catches its own failures), so its \<open>catch\<close> has no branch here.
\<close>

fun visitPages :: "web \<Rightarrow> string list \<Rightarrow> contactInfo \<Rightarrow> contactInfo \<times> string list" where
  "visitPages w [] contactInfo = (contactInfo, [])"
| "visitPages w (internalUrl # rest) contactInfo =
     (case visitPages w rest (mergeInfo contactInfo (extractFromPage w internalUrl)) of
        (final, visited) \<Rightarrow> (final, internalUrl # visited))"

definition needsMore :: "contactInfo \<Rightarrow> bool" where
  "needsMore contactInfo =
     (length (emails contactInfo) = 0 \<or> length (facebook contactInfo) = 0
      \<or> length (instagram contactInfo) = 0)"

datatype thrown = Thrown

text \<open>
  \<open>extractContactInfoFromWebsite\<close>. A failed launch throws to the caller, as does a failed
  \<open>browser.close()\<close> in the \<open>finally\<close>; a failure inside the \<open>try\<close> returns the empty
  bundle. The second component of the result lists the internal pages mined.
\<close>

definition extractContactInfoFromWebsite ::
  "web \<Rightarrow> string \<Rightarrow> jsval \<Rightarrow> thrown + (contactInfo \<times> string list)" where
  "extractContactInfoFromWebsite w url visit =
     (if \<not> launchOk w url then Inl Thrown
      else
        (let result =
           (if \<not> newPageOk w url then (emptyInfo, [])
            else
              (let contactInfo = extractFromPage w url
               in if truthy (defaultTrue visit) \<and> needsMore contactInfo
                  then visitPages w (take 3 (findInternalPages w url)) contactInfo
                  else (contactInfo, [])))
         in if closeOk w url then Inr result else Inl Thrown))"

section \<open>Discovery and per-listing processing (\<open>scrapeGoogleMaps\<close>)\<close>

text \<open>What one round of the scroll loop finds: no feed panel, the number of loaded
  entries read after the scroll and the delay, or a step of the round throws.\<close>

datatype poll = NoPanel | Loaded nat | Throws

text \<open>An entry of the results feed: the \<open>aria-label\<close> and the \<open>href\<close> of an anchor.\<close>

record business =
  name :: string
  link :: string

text \<open>
  The detail page of a listing: \<open>opens\<close> says that opening the page, configuring it and
  navigating to the link succeed; the three extractions give their value, or \<open>None\<close>
  when the evaluation throws; \<open>closes\<close> says that \<open>mapPage.close()\<close> succeeds.
\<close>

record detailPage =
  opens :: bool
  phoneText :: "string option"
  websiteHref :: "string option"
  ratingReviews :: "(string \<times> string) option"
  closes :: bool

text \<open>
  The map search as the browser shows it: \<open>searchOpens\<close> says that the browser launches
  and the search page loads, \<open>feed i\<close> is what round \<open>i\<close> of the scroll loop finds (rounds
  count from 0), \<open>anchorsRead\<close> says that the read of the anchors after the loop succeeds
  and \<open>feedAnchors\<close> are the anchors it finds, \<open>detail i\<close> is the
  detail page as the \<open>i\<close>-th iteration of the processing loop finds it, and
  \<open>browserCloses\<close> says that the \<open>browser.close()\<close> of the \<open>finally\<close> succeeds.
\<close>

record maps =
  searchOpens :: bool
  feed :: "nat \<Rightarrow> poll"
  anchorsRead :: bool
  feedAnchors :: "business list"
  detail :: "nat \<Rightarrow> detailPage"
  browserCloses :: bool

definition MAX_SCROLLS :: nat where
  "MAX_SCROLLS = 20"

text \<open>Comparisons with a target count that may be NaN are false.\<close>

fun num_ge :: "nat \<Rightarrow> jsnum \<Rightarrow> bool" where
  "num_ge n NaN = False"
| "num_ge n (Num t) = (int n \<ge> t)"

fun num_lt :: "jsnum \<Rightarrow> int \<Rightarrow> bool" where
  "num_lt NaN k = False"
| "num_lt (Num t) k = (t < k)"

definition scrollDelay :: "jsnum \<Rightarrow> nat" where
  "scrollDelay target = (if num_lt target 20 then 3000 else 15000)"

text \<open>What the loop does, in order: a round (the delay waited, the count read), the
  30 second wait after a first round without new results, and how it ended early.\<close>

datatype scrollEvent = Round nat nat | Grace | PanelMissing | Crashed

text \<open>
  The scroll loop from round \<open>i\<close> on, with the loop variables \<open>lastCount\<close> and
  \<open>noNewResultsCount\<close>; \<open>loadedCount\<close> is the \<open>currentCount\<close> of the round.
\<close>

function scrollLoop :: "maps \<Rightarrow> jsnum \<Rightarrow> nat \<Rightarrow> nat \<Rightarrow> nat \<Rightarrow> scrollEvent list" where
  "scrollLoop m target i lastCount noNewResultsCount =
     (if i < MAX_SCROLLS then
        (case feed m i of
           NoPanel \<Rightarrow> [PanelMissing]
         | Throws \<Rightarrow> [Crashed]
         | Loaded loadedCount \<Rightarrow>
             Round (scrollDelay target) loadedCount #
             (if num_ge loadedCount target then []
              else if loadedCount = lastCount then
                (if noNewResultsCount + 1 \<ge> 2 then []
                 else Grace # scrollLoop m target (i + 1) loadedCount (noNewResultsCount + 1))
              else scrollLoop m target (i + 1) loadedCount 0))
      else [])"
  by pat_completeness auto
termination
  by (relation "measure (\<lambda>(m, target, i, lastCount, n). MAX_SCROLLS - i)") auto

declare scrollLoop.simps [simp del]




text \<open>A row of the result, as pushed to \<open>results\<close>.\<close>

record lead =
  lead_name :: string
  maps_link :: string
  phone :: string
  website :: string
  rating :: string
  reviews :: string
  lead_emails :: string
  lead_facebook :: string
  lead_instagram :: string

definition emptyLead :: "business \<Rightarrow> lead" where
  "emptyLead b = \<lparr>lead_name = name b, maps_link = link b, phone = [], website = [], rating = [],
     reviews = [], lead_emails = [], lead_facebook = [], lead_instagram = []\<rparr>"

text \<open>
  The contact bundle of a listing: the empty one when there is no website or when the
  enrichment throws (the inner \<open>catch\<close>).
\<close>

definition contactFor :: "web \<Rightarrow> jsval \<Rightarrow> string \<Rightarrow> contactInfo" where
  "contactFor w visit site =
     (if site \<noteq> [] then
        (case extractContactInfoFromWebsite w site visit of
           Inl e \<Rightarrow> emptyInfo
         | Inr (info, visited) \<Rightarrow> info)
      else emptyInfo)"

text \<open>
  One iteration of the processing loop: the rows it pushes. A step that throws before
  the push leads to the \<open>catch\<close>, which pushes the empty row; \<open>mapPage.close()\<close> comes
  after the push, inside the same \<open>try\<close>.
\<close>

definition processBusiness :: "web \<Rightarrow> jsval \<Rightarrow> detailPage \<Rightarrow> business \<Rightarrow> lead list" where
  "processBusiness w visit page b =
     (if \<not> opens page then [emptyLead b]
      else case phoneText page of None \<Rightarrow> [emptyLead b] | Some ph \<Rightarrow>
        (case websiteHref page of None \<Rightarrow> [emptyLead b] | Some site \<Rightarrow>
          (case ratingReviews page of None \<Rightarrow> [emptyLead b] | Some (rt, rv) \<Rightarrow>
            (let contactInfo = contactFor w visit site;
                 row = \<lparr>lead_name = name b, maps_link = link b, phone = ph, website = site,
                         rating = rt, reviews = rv, lead_emails = join (emails contactInfo),
                         lead_facebook = join (facebook contactInfo),
                         lead_instagram = join (instagram contactInfo)\<rparr>
             in if closes page then [row] else [row, emptyLead b]))))"

text \<open>\<open>Math.min(businesses.length, targetCount)\<close> as the bound of \<open>for (let i = 0; i < ...; i++)\<close>:
  the number of iterations. With NaN the loop condition is false at once.\<close>

definition iterations :: "nat \<Rightarrow> jsnum \<Rightarrow> nat" where
  "iterations len target = (case target of NaN \<Rightarrow> 0 | Num t \<Rightarrow> nat (min (int len) t))"

text \<open>The listings the processing loop takes up, and the rows of the loop from
  iteration \<open>i\<close> on.\<close>

definition processed :: "business list \<Rightarrow> jsnum \<Rightarrow> business list" where
  "processed businesses target = take (iterations (length businesses) target) businesses"

fun processFrom :: "web \<Rightarrow> jsval \<Rightarrow> maps \<Rightarrow> nat \<Rightarrow> business list \<Rightarrow> lead list" where
  "processFrom w visit m i [] = []"
| "processFrom w visit m i (b # bs) =
     processBusiness w visit (detail m i) b @ processFrom w visit m (i + 1) bs"

text \<open>
  \<open>scrapeGoogleMaps\<close>: the scroll loop, the read of the anchors, the processing loop.
  The call rejects when the search page does not open, when a round of the scroll loop
  or the read of the anchors throws, or when closing the browser throws.
\<close>

definition scrapeGoogleMaps :: "web \<Rightarrow> maps \<Rightarrow> jsnum \<Rightarrow> jsval \<Rightarrow> thrown + lead list" where
  "scrapeGoogleMaps w m target visit =
     (if \<not> searchOpens m then Inl Thrown
      else if Crashed \<in> set (scrollLoop m target 0 0 0) then Inl Thrown
      else if \<not> anchorsRead m then Inl Thrown
      else if \<not> browserCloses m then Inl Thrown
      else Inr (processFrom w (defaultTrue visit) m 0 (processed (feedAnchors m) target)))"

section \<open>What a match looks like\<close>

text \<open>
  The strings a regular expression can match, as a relation; the matcher only ever reports
  such strings (\<open>ms_sound\<close>, \<open>matchAll_matches\<close>).
\<close>

inductive matches :: "regex \<Rightarrow> string \<Rightarrow> bool" where
  m_class: "in_class its c \<Longrightarrow> matches (Class its) [c]"
| m_lit: "lit_ok p c \<Longrightarrow> matches (Lit p) [c]"
| m_space: "isSpace c \<Longrightarrow> matches Space [c]"
| m_seq: "matches r1 u \<Longrightarrow> matches r2 v \<Longrightarrow> matches (Seq r1 r2) (u @ v)"
| m_opt_none: "matches (Opt r) []"
| m_opt_some: "matches r u \<Longrightarrow> matches (Opt r) u"
| m_star_nil: "matches (Star r) []"
| m_star_more: "matches r u \<Longrightarrow> matches (Star r) v \<Longrightarrow> matches (Star r) (u @ v)"
| m_plus: "matches r u \<Longrightarrow> matches (Star r) v \<Longrightarrow> matches (Plus r) (u @ v)"
| m_atleast_0: "matches (Star r) u \<Longrightarrow> matches (AtLeast 0 r) u"
| m_atleast_Suc: "matches r u \<Longrightarrow> matches (AtLeast n r) v \<Longrightarrow> matches (AtLeast (Suc n) r) (u @ v)"

inductive_cases matches_ClassE: "matches (Class its) w"
inductive_cases matches_LitE: "matches (Lit p) w"
inductive_cases matches_SeqE: "matches (Seq r1 r2) w"
inductive_cases matches_OptE: "matches (Opt r) w"
inductive_cases matches_PlusE: "matches (Plus r) w"
inductive_cases matches_StarE: "matches (Star r) w"

section \<open>Example environments\<close>

text \<open>
  A small shop website with a contact, an about (unreachable), a team and a staff page
  and a link to another host; the same website when no browser can be launched; a feed
  that stays at five entries, whose second detail page does not open; a feed with the
  same anchor twice; a feed whose count falls from 9 to 8 to 7 and then stays at 7; one
  listing with a website.
\<close>

definition shopWeb :: web where
  "shopWeb =
     \<lparr>content = (\<lambda>u. if u = ''http://s.test'' then Some ''mail a@s.co''
                     else if u = ''http://s.test/about'' then None
                     else if u = ''http://s.test/contact'' then Some ''b@s.co facebook.com/shop''
                     else Some []),
      anchors = (\<lambda>u. Some [''http://s.test/contact'', ''http://x.test/contact'',
                     ''http://s.test/about'', ''http://s.test/blog'', ''http://s.test/team'',
                     ''http://s.test/staff'']),
      hostname = (\<lambda>u. if startsWith u ''http://s.test'' then Some ''s.test''
                     else if startsWith u ''http://x.test'' then Some ''x.test'' else None),
      launchOk = (\<lambda>u. True), newPageOk = (\<lambda>u. True), closeOk = (\<lambda>u. True)\<rparr>"

definition downWeb :: web where
  "downWeb = shopWeb\<lparr>launchOk := (\<lambda>u. False)\<rparr>"

definition fiveFeed :: maps where
  "fiveFeed =
     \<lparr>searchOpens = True, feed = (\<lambda>i. Loaded 5), anchorsRead = True,
      feedAnchors = [\<lparr>name = ''A'', link = ''https://maps.test/a''\<rparr>,
                     \<lparr>name = ''B'', link = ''https://maps.test/b''\<rparr>,
                     \<lparr>name = ''C'', link = ''https://maps.test/c''\<rparr>,
                     \<lparr>name = ''D'', link = ''https://maps.test/d''\<rparr>,
                     \<lparr>name = ''E'', link = ''https://maps.test/e''\<rparr>],
      detail = (\<lambda>i. \<lparr>opens = (i \<noteq> 1), phoneText = Some ''555 0100'', websiteHref = Some [],
                          ratingReviews = Some (''4.5'', ''12''), closes = True\<rparr>),
      browserCloses = True\<rparr>"

definition twinFeed :: maps where
  "twinFeed =
     \<lparr>searchOpens = True, feed = (\<lambda>i. Loaded 2), anchorsRead = True,
      feedAnchors = [\<lparr>name = ''A'', link = ''https://maps.test/a''\<rparr>,
                     \<lparr>name = ''A'', link = ''https://maps.test/a''\<rparr>],
      detail = (\<lambda>i. \<lparr>opens = True, phoneText = Some ''555 0100'', websiteHref = Some [],
                          ratingReviews = Some (''4.5'', ''12''), closes = True\<rparr>),
      browserCloses = True\<rparr>"


definition shopPage :: detailPage where
  "shopPage = \<lparr>opens = True, phoneText = Some ''555 0100'', websiteHref = Some ''http://s.test'',
     ratingReviews = Some (''4.5'', ''12''), closes = True\<rparr>"

definition shop :: business where
  "shop = \<lparr>name = ''Shop'', link = ''https://maps.test/shop''\<rparr>"

text \<open>A stand-in for \<open>parseInt\<close>, right on the whole numbers used in the examples.\<close>

fun parseIntEx :: "jsval \<Rightarrow> jsnum" where
  "parseIntEx (JNumber n) = Num \<lfloor>n\<rfloor>"
| "parseIntEx _ = NaN"

section \<open>Properties of the job state machine\<close>

lemma post_scrape_invalid:
  "\<not> truthy (query req) \<or> \<not> truthy (count req) \<Longrightarrow>
     post_scrape parseInt s req now1 now2 = (s, BadRequest, None)"
  by (simp add: post_scrape_def)

lemma step_invalid:
  "\<not> truthy (query req) \<or> \<not> truthy (count req) \<Longrightarrow>
     step parseInt sv (Start req now1 now2) = (sv, [BadRequest])"
  by (simp add: post_scrape_invalid)




text \<open>
  C10. A start request whose query or count is missing or falsy is answered with the
  400 error before any state change: the state is left as it was (an idle machine stays
  idle), no scrape is started, no run is put in flight and no export is produced.
\<close>

theorem missing_parameter_rejected:
  "\<not> truthy (query req) \<or> \<not> truthy (count req) \<Longrightarrow>
     post_scrape parseInt s req now1 now2 = (s, BadRequest, None)
     \<and> step parseInt sv (Start req now1 now2) = (sv, [BadRequest])
     \<and> fst (step parseInt initialServer (Start req now1 now2)) = initialServer
     \<and> idle (pstate (fst (step parseInt initialServer (Start req now1 now2))))
     \<and> inflight (fst (step parseInt initialServer (Start req now1 now2))) = []
     \<and> exports (fst (step parseInt initialServer (Start req now1 now2))) = []"
  by (simp add: post_scrape_invalid initialServer_def initialState_def idle_def)

theorem missing_parameter_rejected_witness:
  "post_scrape parseIntEx initialState
        \<lparr>query = JString [], count = JNumber 0, visitInternalPages = JUndefined\<rparr> 1000 1001
      = (initialState, BadRequest, None)
   \<and> step parseIntEx initialServer
        (Start \<lparr>query = JUndefined, count = JNumber 5, visitInternalPages = JUndefined\<rparr> 1000 1001)
      = (initialServer, [BadRequest])
   \<and> step parseIntEx initialServer
        (Start \<lparr>query = JString ''bakery'', count = JUndefined, visitInternalPages = JUndefined\<rparr> 1000 1001)
      = (initialServer, [BadRequest])"
  using missing_parameter_rejected
      [of "\<lparr>query = JString [], count = JNumber 0, visitInternalPages = JUndefined\<rparr>"
          parseIntEx initialState 1000 1001 initialServer]
    missing_parameter_rejected
      [of "\<lparr>query = JUndefined, count = JNumber 5, visitInternalPages = JUndefined\<rparr>"
          parseIntEx initialState 1000 1001 initialServer]
    missing_parameter_rejected
      [of "\<lparr>query = JString ''bakery'', count = JUndefined, visitInternalPages = JUndefined\<rparr>"
          parseIntEx initialState 1000 1001 initialServer]
  by simp









section \<open>Properties of the matcher\<close>

lemma addAll_distinct: "distinct acc \<Longrightarrow> distinct (addAll acc xs)"
  by (induction xs arbitrary: acc) auto

lemma addAll_set: "set (addAll acc xs) = set acc \<union> set xs"
  by (induction xs arbitrary: acc) auto

lemma newSet_distinct: "distinct (newSet xs)"
  by (simp add: newSet_def addAll_distinct)

lemma newSet_set: "set (newSet xs) = set xs"
  by (simp add: newSet_def addAll_set)

lemma ms_sound: "s' \<in> set (ms r s) \<Longrightarrow> \<exists>w. s = w @ s' \<and> matches r w"
proof (induction r s arbitrary: s' rule: ms.induct)
  case (1 its s)
  then show ?case by (auto simp: ms.simps(1) split: list.splits if_splits intro: m_class)
next
  case (2 p s)
  then show ?case by (auto simp: ms.simps(2) split: list.splits if_splits intro: m_lit)
next
  case (3 s)
  then show ?case by (auto simp: ms.simps(3) split: list.splits if_splits intro: m_space)
next
  case (4 r1 r2 s)
  from "4.prems" obtain s1 where s1: "s1 \<in> set (ms r1 s)" and s2: "s' \<in> set (ms r2 s1)"
    by (auto simp: ms.simps(4))
  from "4.IH"(1) [OF s1] obtain u where u: "s = u @ s1" "matches r1 u" by blast
  from "4.IH"(2) [OF s1 s2] obtain v where v: "s1 = v @ s'" "matches r2 v" by blast
  from u v have "s = (u @ v) @ s'" and "matches (Seq r1 r2) (u @ v)"
    by (simp_all add: m_seq m_star_more m_plus m_atleast_Suc m_opt_none m_star_nil)
  then show ?case by blast
next
  case (5 r s)
  from "5.prems" have "s' \<in> set (ms r s) \<or> s' = s" by (auto simp: ms.simps(5))
  then show ?case
  proof
    assume "s' \<in> set (ms r s)"
    from "5.IH" [OF this] show ?thesis by (blast intro: m_opt_some)
  next
    assume "s' = s"
    then have "s = [] @ s'" and "matches (Opt r) []" by (simp_all add: m_seq m_star_more m_plus m_atleast_Suc m_opt_none m_star_nil)
    then show ?thesis by blast
  qed
next
  case (6 r s)
  from "6.prems" have "s' = s \<or> (\<exists>s1 \<in> set (ms r s). length s1 < length s \<and> s' \<in> set (ms (Star r) s1))"
    by (auto simp: ms.simps(6) [of r s] split: if_splits)
  then show ?case
  proof
    assume "s' = s"
    then have "s = [] @ s'" and "matches (Star r) []" by (simp_all add: m_seq m_star_more m_plus m_atleast_Suc m_opt_none m_star_nil)
    then show ?thesis by blast
  next
    assume "\<exists>s1 \<in> set (ms r s). length s1 < length s \<and> s' \<in> set (ms (Star r) s1)"
    then obtain s1 where s1: "s1 \<in> set (ms r s)" and lt: "length s1 < length s"
      and s2: "s' \<in> set (ms (Star r) s1)" by blast
    from "6.IH"(1) [OF s1] obtain u where u: "s = u @ s1" "matches r u" by blast
    from "6.IH"(2) [OF s1 lt s2] obtain v where v: "s1 = v @ s'" "matches (Star r) v" by blast
    from u v have "s = (u @ v) @ s'" and "matches (Star r) (u @ v)"
      by (simp_all add: m_seq m_star_more m_plus m_atleast_Suc m_opt_none m_star_nil)
    then show ?thesis by blast
  qed
next
  case (7 r s)
  from "7.prems" obtain s1 where s1: "s1 \<in> set (ms r s)" and s2: "s' \<in> set (ms (Star r) s1)"
    by (auto simp: ms.simps(7) [of r s])
  from "7.IH"(1) [OF s1] obtain u where u: "s = u @ s1" "matches r u" by blast
  from "7.IH"(2) [OF s1 s2] obtain v where v: "s1 = v @ s'" "matches (Star r) v" by blast
  from u v have "s = (u @ v) @ s'" and "matches (Plus r) (u @ v)"
    by (simp_all add: m_seq m_star_more m_plus m_atleast_Suc m_opt_none m_star_nil)
  then show ?case by blast
next
  case (8 n r s)
  show ?case
  proof (cases n)
    case 0
    with "8.prems" have "s' \<in> set (ms (Star r) s)" by (simp add: ms.simps(8) [of 0 r s])
    from "8.IH"(1) [OF 0 this] 0 show ?thesis by (blast intro: m_atleast_0)
  next
    case (Suc m)
    with "8.prems" obtain s1 where s1: "s1 \<in> set (ms r s)" and s2: "s' \<in> set (ms (AtLeast m r) s1)"
      by (auto simp: ms.simps(8) [of "Suc m" r s])
    from "8.IH"(2) [OF Suc s1] obtain u where u: "s = u @ s1" "matches r u" by blast
    from "8.IH"(3) [OF Suc s1 s2] obtain v where v: "s1 = v @ s'" "matches (AtLeast m r) v" by blast
    from u v Suc have "s = (u @ v) @ s'" and "matches (AtLeast n r) (u @ v)"
      by (simp_all add: m_seq m_star_more m_plus m_atleast_Suc m_opt_none m_star_nil)
    then show ?thesis by blast
  qed
qed



lemma exec_sound: "exec r s = Some s' \<Longrightarrow> \<exists>w. s = w @ s' \<and> matches r w"
  by (rule ms_sound) (auto simp: exec_def split: list.splits)

lemma matchAll_matches: "m \<in> set (matchAll r s) \<Longrightarrow> matches r m"
proof (induction r s rule: matchAll.induct)
  case (1 r s)
  show ?case
  proof (cases "exec r s")
    case None
    with "1.prems" obtain c cs where s: "s = c # cs" and m: "m \<in> set (matchAll r cs)"
      by (auto simp: matchAll.simps [of r s] split: list.splits)
    from "1.IH"(1) [OF None s m] show ?thesis .
  next
    case (Some s')
    from exec_sound [OF Some] obtain w where w: "s = w @ s'" "matches r w" by blast
    show ?thesis
    proof (cases "length s' < length s")
      case True
      with "1.prems" Some have "m = take (length s - length s') s \<or> m \<in> set (matchAll r s')"
        by (auto simp: matchAll.simps [of r s])
      then show ?thesis
      proof
        assume "m = take (length s - length s') s"
        with w show ?thesis by simp
      next
        assume "m \<in> set (matchAll r s')"
        from "1.IH"(2) [OF Some True this] show ?thesis .
      qed
    next
      case False
      with w have w0: "w = []" by simp
      from False "1.prems" Some have "m = [] \<or> (\<exists>c cs. s = c # cs \<and> m \<in> set (matchAll r cs))"
        by (auto simp: matchAll.simps [of r s] split: list.splits)
      then show ?thesis
      proof
        assume "m = []"
        with w w0 show ?thesis by simp
      next
        assume "\<exists>c cs. s = c # cs \<and> m \<in> set (matchAll r cs)"
        then obtain c cs where s: "s = c # cs" and m: "m \<in> set (matchAll r cs)" by blast
        from "1.IH"(3) [OF Some False s m] show ?thesis .
      qed
    qed
  qed
qed

lemma matches_lits:
  "matches (cat (lits l)) w \<Longrightarrow> list_all2 lit_ok l w"
proof (induction l arbitrary: w)
  case Nil
  then show ?case
    by (auto simp: lits_def in_class_def elim!: matches_OptE matches_ClassE split: if_splits)
next
  case (Cons p l)
  show ?case
  proof (cases l)
    case Nil
    with Cons.prems show ?thesis by (auto simp: lits_def elim!: matches_LitE)
  next
    case (Cons q l')
    with Cons.prems have "matches (Seq (Lit p) (cat (lits l))) w" by (simp add: lits_def)
    then obtain u v where "w = u @ v" "matches (Lit p) u" "matches (cat (lits l)) v"
      by (auto elim!: matches_SeqE)
    with Cons.IH show ?thesis by (auto elim!: matches_LitE)
  qed
qed


lemma lit_ok_simps:
  "lit_ok CHR ''h'' c = (c = CHR ''h'' \<or> c = CHR ''H'')"
  "lit_ok CHR ''t'' c = (c = CHR ''t'' \<or> c = CHR ''T'')"
  "lit_ok CHR ''p'' c = (c = CHR ''p'' \<or> c = CHR ''P'')"
  "lit_ok CHR ''s'' c = (c = CHR ''s'' \<or> c = CHR ''S'')"
  "lit_ok CHR ''w'' c = (c = CHR ''w'' \<or> c = CHR ''W'')"
  "lit_ok CHR ''f'' c = (c = CHR ''f'' \<or> c = CHR ''F'')"
  "lit_ok CHR ''i'' c = (c = CHR ''i'' \<or> c = CHR ''I'')"
  "lit_ok CHR '':'' c = (c = CHR '':'')"
  "lit_ok CHR ''/'' c = (c = CHR ''/'')"
  by (auto simp: lit_ok_def asciiUpper_def asciiLower_def)

lemma matches_scheme:
  assumes "matches schemeRe a"
  shows "a = [] \<or> (\<exists>c1 c2 c3 c4. lit_ok CHR ''h'' c1 \<and> lit_ok CHR ''t'' c2 \<and> lit_ok CHR ''t'' c3
           \<and> lit_ok CHR ''p'' c4
           \<and> (a = [c1, c2, c3, c4] @ ''://'' \<or> (\<exists>c5. lit_ok CHR ''s'' c5 \<and> a = [c1, c2, c3, c4, c5] @ ''://'')))"
proof -
  from assms have "a = [] \<or> matches (Seq (Lit CHR ''h'') (Seq (Lit CHR ''t'') (Seq (Lit CHR ''t'')
      (Seq (Lit CHR ''p'') (Seq (Opt (Lit CHR ''s'')) (cat (lits ''://''))))))) a"
    by (auto simp: schemeRe_def lits_def elim: matches_OptE)
  then show ?thesis
  proof
    assume "a = []" then show ?thesis by simp
  next
    assume "matches (Seq (Lit CHR ''h'') (Seq (Lit CHR ''t'') (Seq (Lit CHR ''t'')
      (Seq (Lit CHR ''p'') (Seq (Opt (Lit CHR ''s'')) (cat (lits ''://''))))))) a"
    then obtain c1 c2 c3 c4 o5 t where a: "a = [c1] @ [c2] @ [c3] @ [c4] @ o5 @ t"
      and c: "lit_ok CHR ''h'' c1" "lit_ok CHR ''t'' c2" "lit_ok CHR ''t'' c3" "lit_ok CHR ''p'' c4"
      and o5: "matches (Opt (Lit CHR ''s'')) o5" and t: "matches (cat (lits ''://'')) t"
      by (auto elim!: matches_SeqE matches_LitE)
    from matches_lits [OF t] have t': "t = ''://''"
      by (auto simp: list_all2_Cons1 lit_ok_simps)
    from o5 have "o5 = [] \<or> (\<exists>c5. lit_ok CHR ''s'' c5 \<and> o5 = [c5])"
      by (auto elim!: matches_OptE matches_LitE)
    with a c t' show ?thesis by auto
  qed
qed

lemma matches_host_first:
  assumes "matches (cat [wwwRe, cat (lits (h # host)), r]) w"
  shows "\<exists>c t. w = c # t \<and> (lit_ok CHR ''w'' c \<or> lit_ok h c)"
proof -
  from assms obtain b c d where w: "w = b @ c @ d" and b: "matches wwwRe b"
    and c: "matches (cat (lits (h # host))) c"
    by (auto elim!: matches_SeqE)
  from matches_lits [OF c] obtain c0 ct where c0: "c = c0 # ct" "lit_ok h c0"
    by (auto simp: list_all2_Cons1)
  from b have "b = [] \<or> matches (cat (lits ''www.'')) b"
    by (auto simp: wwwRe_def elim: matches_OptE)
  then show ?thesis
  proof
    assume "b = []" with w c0 show ?thesis by simp
  next
    assume "matches (cat (lits ''www.'')) b"
    from matches_lits [OF this] obtain b0 bt where "b = b0 # bt" "lit_ok CHR ''w'' b0"
      by (auto simp: list_all2_Cons1)
    with w show ?thesis by simp
  qed
qed

lemma absolute_scheme:
  assumes "matches (cat [schemeRe, wwwRe, cat (lits (h # host)), r]) m"
    and "h \<noteq> CHR ''h''" and "asciiLower h \<noteq> CHR ''h''" and "asciiUpper h \<noteq> CHR ''h''"
  shows "startsWith (absolute m) ''https://'' \<or> startsWith (absolute m) ''http://''
     \<or> startsWith (absolute m) ''httpS://''"
proof (cases "startsWith m ''http''")
  case False
  then show ?thesis by (simp add: absolute_def startsWith_def)
next
  case True
  from assms(1) have "matches (Seq schemeRe (cat [wwwRe, cat (lits (h # host)), r])) m" by simp
  then obtain a w where m: "m = a @ w" and a: "matches schemeRe a"
    and w: "matches (cat [wwwRe, cat (lits (h # host)), r]) w"
    by (blast elim: matches_SeqE)
  from matches_host_first [OF w] obtain c t where ct: "w = c # t" "lit_ok CHR ''w'' c \<or> lit_ok h c"
    by blast
  then have "c = CHR ''w'' \<or> c = CHR ''W'' \<or> c = h \<or> c = asciiUpper h \<or> c = asciiLower h"
    by (auto simp: lit_ok_simps(5)) (auto simp: lit_ok_def split: if_splits)
  with assms(2-4) have ch: "c \<noteq> CHR ''h''" by auto
  from matches_scheme [OF a] show ?thesis
  proof
    assume "a = []"
    with m ct ch True show ?thesis by (simp add: startsWith_def)
  next
    assume "\<exists>c1 c2 c3 c4. lit_ok CHR ''h'' c1 \<and> lit_ok CHR ''t'' c2 \<and> lit_ok CHR ''t'' c3
           \<and> lit_ok CHR ''p'' c4
           \<and> (a = [c1, c2, c3, c4] @ ''://'' \<or> (\<exists>c5. lit_ok CHR ''s'' c5 \<and> a = [c1, c2, c3, c4, c5] @ ''://''))"
    with m True show ?thesis
      by (auto simp: startsWith_def absolute_def lit_ok_simps)
  qed
qed

lemma facebook_absolute:
  "matches facebookRe m \<Longrightarrow>
     startsWith (absolute m) ''https://'' \<or> startsWith (absolute m) ''http://''
     \<or> startsWith (absolute m) ''httpS://''"
  by (rule absolute_scheme [of "CHR ''f''" "''acebook.com/''" "Plus (Class localChars)"])
    (simp_all add: facebookRe_def asciiLower_def asciiUpper_def)

subsection \<open>The shape of a normalised instagram link\<close>


lemma matches_star_class:
  "matches r0 v \<Longrightarrow> r0 = Star (Class its) \<Longrightarrow> \<forall>c \<in> set v. in_class its c"
proof (induction rule: matches.induct)
  case (m_star_more r u v)
  then show ?case by (auto elim: matches_ClassE)
qed simp_all

lemma matches_plus_class:
  assumes "matches (Plus (Class its)) d"
  shows "d \<noteq> [] \<and> (\<forall>c \<in> set d. in_class its c)"
proof -
  from assms obtain u v where d: "d = u @ v" and u: "matches (Class its) u"
    and v: "matches (Star (Class its)) v"
    by (auto elim: matches_PlusE)
  from u obtain c where "u = [c]" "in_class its c" by (auto elim: matches_ClassE)
  with d matches_star_class [OF v refl] show ?thesis by auto
qed

lemma handle_no_slash: "\<not> in_class handleChars CHR ''/''"
  by code_simp

lemma asciiUpper_slash:
  assumes "asciiUpper p = CHR ''/''"
  shows "p = CHR ''/''"
proof (cases "map_of (zip ''abcdefghijklmnopqrstuvwxyz'' ''ABCDEFGHIJKLMNOPQRSTUVWXYZ'') p")
  case None
  with assms show ?thesis by (simp only: asciiUpper_def option.case)
next
  case (Some u)
  with assms have "u = CHR ''/''" by (simp only: asciiUpper_def option.case)
  moreover from Some have "u \<in> set ''ABCDEFGHIJKLMNOPQRSTUVWXYZ''"
    by (blast dest: map_of_SomeD set_zip_rightD)
  ultimately show ?thesis by simp
qed

lemma asciiLower_slash:
  assumes "asciiLower p = CHR ''/''"
  shows "p = CHR ''/''"
proof (cases "map_of (zip ''ABCDEFGHIJKLMNOPQRSTUVWXYZ'' ''abcdefghijklmnopqrstuvwxyz'') p")
  case None
  with assms show ?thesis by (simp only: asciiLower_def option.case)
next
  case (Some u)
  with assms have "u = CHR ''/''" by (simp only: asciiLower_def option.case)
  moreover from Some have "u \<in> set ''abcdefghijklmnopqrstuvwxyz''"
    by (blast dest: map_of_SomeD set_zip_rightD)
  ultimately show ?thesis by simp
qed

lemma lit_ok_no_slash: "lit_ok p c \<Longrightarrow> p \<noteq> CHR ''/'' \<Longrightarrow> c \<noteq> CHR ''/''"
  by (auto simp: lit_ok_def split: if_splits dest: asciiUpper_slash asciiLower_slash)

lemma lits_no_slash:
  "list_all2 lit_ok l w \<Longrightarrow> CHR ''/'' \<notin> set l \<Longrightarrow> CHR ''/'' \<notin> set w"
  by (induction rule: list_all2_induct) (auto dest: lit_ok_no_slash)

text \<open>Searching for a pattern that starts with a slash.\<close>

lemma includes_needs_first: "str_includes s (q # x) \<Longrightarrow> q \<in> set s"
  by (induction s) (auto simp: startsWith_def split: if_splits)

lemma includes_skip:
  "q \<noteq> c \<Longrightarrow> str_includes (c # s) (q # x) = str_includes s (q # x)"
  by (auto simp: startsWith_def)

lemma includes_skip_all:
  "q \<notin> set xs \<Longrightarrow> str_includes (xs @ s) (q # x) = str_includes s (q # x)"
  by (induction xs) (simp_all add: includes_skip del: str_includes.simps)

lemma includes_skip_second:
  "q \<noteq> c \<Longrightarrow> str_includes (p # c # s) (p # q # x) = str_includes (c # s) (p # q # x)"
  by (auto simp: startsWith_def)

lemma includes_last_slash:
  assumes "p \<notin> set d" and "p \<in> set x"
  shows "\<not> str_includes (p # d) (p # q # x)"
proof
  assume "str_includes (p # d) (p # q # x)"
  then have "startsWith (p # d) (p # q # x) \<or> str_includes d (p # q # x)"
    by (simp split: if_splits)
  then show False
  proof
    assume "startsWith (p # d) (p # q # x)"
    then have "take (Suc (length x)) d = q # x" by (simp add: startsWith_def)
    then have "set (q # x) \<subseteq> set d" by (metis set_take_subset)
    with assms show False by auto
  next
    assume "str_includes d (p # q # x)"
    from includes_needs_first [OF this] assms show False by simp
  qed
qed


text \<open>The two shapes of a normalised instagram link.\<close>

lemma no_pattern_one_scheme:
  assumes xs: "CHR ''/'' \<notin> set xs" and ys: "CHR ''/'' \<notin> set ys" and d: "CHR ''/'' \<notin> set d"
    and y: "q \<noteq> y" and yns: "CHR ''/'' \<noteq> y" and sl: "q \<noteq> CHR ''/''"
    and x: "CHR ''/'' \<in> set x"
  shows "\<not> str_includes (xs @ ''//'' @ (y # ys) @ ''/'' @ d) (CHR ''/'' # q # x)"
proof -
  have "str_includes (xs @ ''//'' @ (y # ys) @ ''/'' @ d) (CHR ''/'' # q # x)
      = str_includes (CHR ''/'' # CHR ''/'' # y # ys @ CHR ''/'' # d) (CHR ''/'' # q # x)"
    using includes_skip_all [OF xs] by simp
  also have "\<dots> = str_includes (CHR ''/'' # y # ys @ CHR ''/'' # d) (CHR ''/'' # q # x)"
    by (rule includes_skip_second [OF sl])
  also have "\<dots> = str_includes (y # ys @ CHR ''/'' # d) (CHR ''/'' # q # x)"
    by (rule includes_skip_second [OF y])
  also have "\<dots> = str_includes ((y # ys) @ CHR ''/'' # d) (CHR ''/'' # q # x)"
    by simp
  also from ys yns have "\<dots> = str_includes (CHR ''/'' # d) (CHR ''/'' # q # x)"
    by (intro includes_skip_all) simp
  finally show ?thesis using includes_last_slash [OF d x] by simp
qed


lemma strip_scheme:
  assumes "CHR ''/'' \<notin> set xs" and "q \<noteq> CHR ''/''" and "q \<noteq> z"
  shows "str_includes (xs @ ''//'' @ z # rest) (CHR ''/'' # q # x)
     = str_includes (z # rest) (CHR ''/'' # q # x)"
proof -
  have "str_includes (xs @ ''//'' @ z # rest) (CHR ''/'' # q # x)
      = str_includes (CHR ''/'' # CHR ''/'' # z # rest) (CHR ''/'' # q # x)"
    using includes_skip_all [OF assms(1)] by simp
  also have "\<dots> = str_includes (CHR ''/'' # z # rest) (CHR ''/'' # q # x)"
    by (rule includes_skip_second [OF assms(2)])
  also have "\<dots> = str_includes (z # rest) (CHR ''/'' # q # x)"
    by (rule includes_skip_second [OF assms(3)])
  finally show ?thesis .
qed

lemma matches_www:
  assumes "matches wwwRe b"
  shows "b = [] \<or> (\<exists>y ys. b = y # ys \<and> lit_ok CHR ''w'' y \<and> CHR ''/'' \<notin> set b)"
proof -
  from assms have "b = [] \<or> matches (cat (lits ''www.'')) b"
    by (auto simp: wwwRe_def elim: matches_OptE)
  then show ?thesis
  proof
    assume "b = []" then show ?thesis by simp
  next
    assume "matches (cat (lits ''www.'')) b"
    from matches_lits [OF this] have l: "list_all2 lit_ok ''www.'' b" .
    then obtain y ys where "b = y # ys" "lit_ok CHR ''w'' y" by (auto simp: list_all2_Cons1)
    moreover from lits_no_slash [OF l] have "CHR ''/'' \<notin> set b" by simp
    ultimately show ?thesis by blast
  qed
qed

lemma matches_instagram_host:
  assumes "matches (cat (lits ''instagram.com/'')) c"
  shows "\<exists>y ys. c = (y # ys) @ ''/'' \<and> lit_ok CHR ''i'' y \<and> CHR ''/'' \<notin> set (y # ys)"
proof -
  from matches_lits [OF assms] have l: "list_all2 lit_ok ''instagram.com/'' c" .
  define us where "us = take 13 c"
  define vs where "vs = drop 13 c"
  have c: "c = us @ vs" by (simp add: us_def vs_def)
  from list_all2_takeI [OF l, of 13] have us: "list_all2 lit_ok ''instagram.com'' us"
    by (simp add: us_def)
  from list_all2_dropI [OF l, of 13] have vs: "list_all2 lit_ok ''/'' vs"
    by (simp add: vs_def)
  from vs have v: "vs = ''/''" by (auto simp: list_all2_Cons1 lit_ok_simps)
  from us obtain y ys where y: "us = y # ys" "lit_ok CHR ''i'' y" by (auto simp: list_all2_Cons1)
  from lits_no_slash [OF us] have "CHR ''/'' \<notin> set us" by simp
  with c v y show ?thesis by auto
qed

lemma matches_scheme_shape:
  assumes "matches schemeRe a"
  shows "a = [] \<or> (\<exists>z zs. a = (z # zs) @ ''//'' \<and> lit_ok CHR ''h'' z \<and> CHR ''/'' \<notin> set (z # zs)
           \<and> (startsWith a ''http'' \<longrightarrow> True))"
proof -
  from matches_scheme [OF assms] show ?thesis
  proof
    assume "a = []" then show ?thesis by simp
  next
    assume "\<exists>c1 c2 c3 c4. lit_ok CHR ''h'' c1 \<and> lit_ok CHR ''t'' c2 \<and> lit_ok CHR ''t'' c3
           \<and> lit_ok CHR ''p'' c4
           \<and> (a = [c1, c2, c3, c4] @ ''://'' \<or> (\<exists>c5. lit_ok CHR ''s'' c5 \<and> a = [c1, c2, c3, c4, c5] @ ''://''))"
    then obtain c1 c2 c3 c4 where c: "lit_ok CHR ''h'' c1" "lit_ok CHR ''t'' c2" "lit_ok CHR ''t'' c3"
      "lit_ok CHR ''p'' c4"
      and a: "a = [c1, c2, c3, c4] @ ''://'' \<or> (\<exists>c5. lit_ok CHR ''s'' c5 \<and> a = [c1, c2, c3, c4, c5] @ ''://'')"
      by blast
    from c have n: "c1 \<noteq> CHR ''/''" "c2 \<noteq> CHR ''/''" "c3 \<noteq> CHR ''/''" "c4 \<noteq> CHR ''/''"
      by (auto dest: lit_ok_no_slash)
    from a show ?thesis
    proof
      assume "a = [c1, c2, c3, c4] @ ''://''"
      then have "a = (c1 # [c2, c3, c4, CHR '':'']) @ ''//''" by simp
      with c n show ?thesis by (intro disjI2 exI conjI) auto
    next
      assume "\<exists>c5. lit_ok CHR ''s'' c5 \<and> a = [c1, c2, c3, c4, c5] @ ''://''"
      then obtain c5 where c5: "lit_ok CHR ''s'' c5" and "a = [c1, c2, c3, c4, c5] @ ''://''" by blast
      then have "a = (c1 # [c2, c3, c4, c5, CHR '':'']) @ ''//''" by simp
      moreover from c5 have "c5 \<noteq> CHR ''/''" by (auto dest: lit_ok_no_slash)
      ultimately show ?thesis using c n by (intro disjI2 exI conjI) auto
    qed
  qed
qed

lemma instagram_link_no_pattern:
  assumes m: "matches instagramRe m" and q: "q \<in> set ''prts''" and x: "CHR ''/'' \<in> set x"
  shows "\<not> str_includes (absolute m) (CHR ''/'' # q # x)"
proof -
  from q have qs: "q \<noteq> CHR ''/''" and qh: "q \<noteq> CHR ''h''" "q \<noteq> CHR ''H''"
    and qw: "q \<noteq> CHR ''w''" "q \<noteq> CHR ''W''" and qi: "q \<noteq> CHR ''i''" "q \<noteq> CHR ''I''"
    by auto
  from m have "matches (Seq schemeRe (Seq wwwRe (Seq (cat (lits ''instagram.com/''))
      (Plus (Class handleChars))))) m"
    by (simp add: instagramRe_def)
  then obtain a r1 where m1: "m = a @ r1" and a: "matches schemeRe a"
    and r1: "matches (Seq wwwRe (Seq (cat (lits ''instagram.com/'')) (Plus (Class handleChars)))) r1"
    by (rule matches_SeqE)
  from r1 obtain b r2 where m2: "r1 = b @ r2" and b: "matches wwwRe b"
    and r2: "matches (Seq (cat (lits ''instagram.com/'')) (Plus (Class handleChars))) r2"
    by (rule matches_SeqE)
  from r2 obtain c d where m3: "r2 = c @ d" and c: "matches (cat (lits ''instagram.com/'')) c"
    and d: "matches (Plus (Class handleChars)) d"
    by (rule matches_SeqE)
  from m1 m2 m3 have md: "m = a @ b @ c @ d" by simp
  from matches_plus_class [OF d] handle_no_slash have dn: "CHR ''/'' \<notin> set d" by auto
  from matches_instagram_host [OF c] obtain i1 hs where c': "c = (i1 # hs) @ ''/''"
    and i1: "lit_ok CHR ''i'' i1" and isn: "CHR ''/'' \<notin> set (i1 # hs)" by blast
  from matches_www [OF b] c' i1 isn
  obtain y ys where bc: "b @ c = (y # ys) @ ''/''" and y: "lit_ok CHR ''w'' y \<or> lit_ok CHR ''i'' y"
    and yn: "CHR ''/'' \<notin> set (y # ys)"
    by (cases b) auto
  from y qw qi have qy: "q \<noteq> y" by (auto simp: lit_ok_simps)
  from yn have ysl: "CHR ''/'' \<noteq> y" and ysn: "CHR ''/'' \<notin> set ys" by auto
  have tail: "\<And>xs. CHR ''/'' \<notin> set xs \<Longrightarrow>
      \<not> str_includes (xs @ ''//'' @ (y # ys) @ ''/'' @ d) (CHR ''/'' # q # x)"
    by (rule no_pattern_one_scheme [OF _ ysn dn qy ysl qs x])
  from bc md have mw: "m = a @ (y # ys) @ ''/'' @ d" by simp
  from y have yh: "y \<noteq> CHR ''h''" by (auto simp: lit_ok_simps)
  from matches_scheme_shape [OF a] show ?thesis
  proof
    assume "a = []"
    with mw yh have "absolute m = ''https:'' @ ''//'' @ (y # ys) @ ''/'' @ d"
      by (simp add: absolute_def startsWith_def)
    with tail [of "''https:''"] show ?thesis by simp
  next
    assume "\<exists>z zs. a = (z # zs) @ ''//'' \<and> lit_ok CHR ''h'' z \<and> CHR ''/'' \<notin> set (z # zs)
           \<and> (startsWith a ''http'' \<longrightarrow> True)"
    then obtain z zs where a': "a = (z # zs) @ ''//''" and z: "lit_ok CHR ''h'' z"
      and zn: "CHR ''/'' \<notin> set (z # zs)" by blast
    from z qh have qz: "q \<noteq> z" by (auto simp: lit_ok_simps)
    from a' mw have mz: "m = (z # zs) @ ''//'' @ (y # ys) @ ''/'' @ d" by simp
    show ?thesis
    proof (cases "startsWith m ''http''")
      case True
      then have "absolute m = m" by (simp add: absolute_def)
      with mz tail [OF zn] show ?thesis by simp
    next
      case False
      then have "absolute m = ''https:'' @ ''//'' @ z # (zs @ ''//'' @ (y # ys) @ ''/'' @ d)"
        using mz by (simp add: absolute_def)
      then have "str_includes (absolute m) (CHR ''/'' # q # x)
          = str_includes (z # (zs @ ''//'' @ (y # ys) @ ''/'' @ d)) (CHR ''/'' # q # x)"
        using strip_scheme [of "''https:''" q z "zs @ ''//'' @ (y # ys) @ ''/'' @ d" x] qs qz
        by simp
      also have "\<dots> = str_includes ((z # zs) @ ''//'' @ (y # ys) @ ''/'' @ d) (CHR ''/'' # q # x)"
        by simp
      finally show ?thesis using tail [OF zn] by simp
    qed
  qed
qed

lemma instagram_link_profile: "matches instagramRe m \<Longrightarrow> isProfile (absolute m)"
proof -
  assume m: "matches instagramRe m"
  have "\<not> str_includes (absolute m) (CHR ''/'' # CHR ''p'' # ''/'')"
    by (rule instagram_link_no_pattern [OF m]) simp_all
  moreover have "\<not> str_includes (absolute m) (CHR ''/'' # CHR ''r'' # ''eel/'')"
    by (rule instagram_link_no_pattern [OF m]) simp_all
  moreover have "\<not> str_includes (absolute m) (CHR ''/'' # CHR ''t'' # ''v/'')"
    by (rule instagram_link_no_pattern [OF m]) simp_all
  moreover have "\<not> str_includes (absolute m) (CHR ''/'' # CHR ''s'' # ''tories/'')"
    by (rule instagram_link_no_pattern [OF m]) simp_all
  ultimately show ?thesis by (simp add: isProfile_def)
qed

lemma profile_filter_keeps_all: "filter isProfile (instagramLinks html) = instagramLinks html"
proof -
  have "\<forall>l \<in> set (instagramLinks html). isProfile l"
    by (auto simp: instagramLinks_def newSet_set dest!: matchAll_matches instagram_link_profile)
  then show ?thesis by (simp add: filter_id_conv)
qed

lemma mineInstagram_is_raw: "mineInstagram html = instagramLinks html"
  by (simp add: mineInstagram_def selectProfiles_def Let_def profile_filter_keeps_all)

section \<open>Properties of the contact miner\<close>

lemma mineFacebook_sub:
  "lnk \<in> set (mineFacebook html) \<Longrightarrow>
     \<not> str_includes lnk ''/login'' \<and> \<not> str_includes lnk ''/share''
     \<and> (\<exists>m \<in> set (matchAll facebookRe html). lnk = absolute m)"
  by (auto simp: mineFacebook_def newSet_set)

text \<open>
  What the facebook pass does guarantee on every page content: the mined list has no
  repeated entry, and every link in it contains neither \<open>/login\<close> nor \<open>/share\<close>, begins
  with the characters \<open>http://\<close>, \<open>https://\<close> or \<open>httpS://\<close>, and is a match of the facebook
  pattern, kept as it is when it starts with \<open>http\<close> and prefixed with \<open>https://\<close>
  otherwise.
\<close>

lemma mineFacebook_guarantees:
  "distinct (facebook (mine html))
   \<and> (\<forall>lnk \<in> set (facebook (mine html)).
         \<not> str_includes lnk ''/login'' \<and> \<not> str_includes lnk ''/share''
         \<and> (startsWith lnk ''https://'' \<or> startsWith lnk ''http://'' \<or> startsWith lnk ''httpS://'')
         \<and> (\<exists>m \<in> set (matchAll facebookRe html).
               lnk = (if startsWith m ''http'' then m else ''https://'' @ m)))"
proof -
  have d: "distinct (facebook (mine html))"
    by (simp add: mine_def mineFacebook_def newSet_distinct)
  have "\<And>lnk. lnk \<in> set (mineFacebook html) \<Longrightarrow>
         \<not> str_includes lnk ''/login'' \<and> \<not> str_includes lnk ''/share''
         \<and> (startsWith lnk ''https://'' \<or> startsWith lnk ''http://'' \<or> startsWith lnk ''httpS://'')
         \<and> (\<exists>m \<in> set (matchAll facebookRe html).
               lnk = (if startsWith m ''http'' then m else ''https://'' @ m))"
  proof -
    fix lnk assume "lnk \<in> set (mineFacebook html)"
    from mineFacebook_sub [OF this] obtain m where m: "m \<in> set (matchAll facebookRe html)"
      and l: "lnk = absolute m"
      and n: "\<not> str_includes lnk ''/login''" "\<not> str_includes lnk ''/share''" by blast
    from facebook_absolute [OF matchAll_matches [OF m]] l
    have "startsWith lnk ''https://'' \<or> startsWith lnk ''http://'' \<or> startsWith lnk ''httpS://''"
      by simp
    with m l n
    show "\<not> str_includes lnk ''/login'' \<and> \<not> str_includes lnk ''/share''
         \<and> (startsWith lnk ''https://'' \<or> startsWith lnk ''http://'' \<or> startsWith lnk ''httpS://'')
         \<and> (\<exists>m \<in> set (matchAll facebookRe html).
               lnk = (if startsWith m ''http'' then m else ''https://'' @ m))"
      unfolding absolute_def by blast
  qed
  with d show ?thesis by (simp add: mine_def)
qed

text \<open>
  C8. The pattern matches the scheme in any letter case, but the test that decides
  whether a link already has a scheme, \<open>startsWith('http')\<close>, is case-sensitive: a link
  matched with the scheme \<open>HTTPS://\<close> is prefixed with \<open>https://\<close> once more, and what is
  emitted is not the link in absolute form. The pattern also stops at the first \<open>/\<close>
  after the handle, so a login or share link deeper in the path is matched without its
  \<open>/login\<close> or \<open>/share\<close> part and emitted, and \<open>/Login\<close> passes the case-sensitive
  exclusion. A link whose handle starts with \<open>login\<close> or \<open>share\<close> is excluded, and a link
  matched without a scheme is prefixed as the claim says.
\<close>

theorem facebook_scheme_doubled:
  "facebook (mine ''HTTPS://WWW.FACEBOOK.COM/Acme'') = [''https://HTTPS://WWW.FACEBOOK.COM/Acme'']
   \<and> matchAll facebookRe ''HTTPS://WWW.FACEBOOK.COM/Acme'' = [''HTTPS://WWW.FACEBOOK.COM/Acme'']
   \<and> \<not> startsWith ''HTTPS://WWW.FACEBOOK.COM/Acme'' ''http''
   \<and> facebook (mine ''www.facebook.com/dialog/share?app_id=1 facebook.com/acme/login facebook.com/Login'')
       = [''https://www.facebook.com/dialog'', ''https://facebook.com/acme'',
          ''https://facebook.com/Login'']
   \<and> facebook (mine ''facebook.com/login www.facebook.com/acme facebook.com/sharer'')
       = [''https://www.facebook.com/acme'']"
proof -
  have "mineFacebook ''HTTPS://WWW.FACEBOOK.COM/Acme'' = [''https://HTTPS://WWW.FACEBOOK.COM/Acme'']"
    by code_simp
  moreover have "matchAll facebookRe ''HTTPS://WWW.FACEBOOK.COM/Acme''
      = [''HTTPS://WWW.FACEBOOK.COM/Acme'']"
    by code_simp
  moreover have "\<not> startsWith ''HTTPS://WWW.FACEBOOK.COM/Acme'' ''http''"
    by (simp add: startsWith_def)
  moreover have
    "mineFacebook ''www.facebook.com/dialog/share?app_id=1 facebook.com/acme/login facebook.com/Login''
       = [''https://www.facebook.com/dialog'', ''https://facebook.com/acme'',
          ''https://facebook.com/Login'']"
    by code_simp
  moreover have "mineFacebook ''facebook.com/login www.facebook.com/acme facebook.com/sharer''
       = [''https://www.facebook.com/acme'']"
    by code_simp
  ultimately show ?thesis by (simp add: mine_def)
qed

text \<open>
  C7, as stated, fails: the \<open>Set\<close> that removes repeated emails compares the strings as
  they were matched, so two spellings of one address that differ only in letter case are
  both kept.
\<close>

theorem emails_case_counterexample:
  "emails (mine ''Info@Firm.org info@firm.org'') = [''Info@Firm.org'', ''info@firm.org'']
   \<and> ''Info@Firm.org'' \<noteq> ''info@firm.org''
   \<and> toLowerCase ''Info@Firm.org'' = toLowerCase ''info@firm.org''"
proof -
  have "mineEmails ''Info@Firm.org info@firm.org'' = [''Info@Firm.org'', ''info@firm.org'']"
    by code_simp
  moreover have "toLowerCase ''Info@Firm.org'' = toLowerCase ''info@firm.org''"
    by code_simp
  ultimately show ?thesis by (simp add: mine_def)
qed

text \<open>
  C7, amended. For every page content the mined email list is deduplicated by exact
  string equality: no string occurs in it twice.
\<close>

theorem emails_distinct: "distinct (emails (mine html))"
  by (simp add: mine_def mineEmails_def Let_def newSet_distinct)

text \<open>
  C2. The rejection rules are applied to the first pass only. On the page content of the
  claim the obfuscated pass recovers \<open>sales@example.com\<close>, which contains \<open>example\<close> and
  fails the filter, and the miner emits it; the same address written plainly is rejected.
\<close>

theorem obfuscated_pass_unfiltered:
  "emails (mine ''sales[at]example[dot]com info[at]firm[dot]org'')
     = [''sales@example.com'', ''info@firm.org'']
   \<and> str_includes (toLowerCase ''sales@example.com'') ''example''
   \<and> \<not> emailFilter ''sales@example.com''
   \<and> emails (mine ''sales@example.com info@firm.org'') = [''info@firm.org'']"
proof -
  have "mineEmails ''sales[at]example[dot]com info[at]firm[dot]org''
     = [''sales@example.com'', ''info@firm.org'']"
    by code_simp
  moreover have "mineEmails ''sales@example.com info@firm.org'' = [''info@firm.org'']"
    by code_simp
  moreover have "str_includes (toLowerCase ''sales@example.com'') ''example''"
    by code_simp
  moreover have "\<not> emailFilter ''sales@example.com''"
    by code_simp
  ultimately show ?thesis by (simp add: mine_def)
qed

text \<open>
  C5. The instagram pattern stops at the first \<open>/\<close> after the handle, so a post link
  \<open>instagram.com/p/xyz\<close> is matched as \<open>instagram.com/p\<close>, which does not contain \<open>/p/\<close>
  and passes the profile filter: on a page with a profile link and a post link both are
  emitted, and on a page with the post link alone the truncated link is emitted as a
  profile, not through the fallback. On every page the profile filter keeps every raw
  link, so the mined instagram list is the raw list. The choice itself does what the
  claim says when it is given the full links: it keeps the profile link and drops the
  post link, and falls back to a lone post link.
\<close>

theorem instagram_post_link_kept:
  "instagram (mine ''instagram.com/brandname instagram.com/p/xyz'')
     = [''https://instagram.com/brandname'', ''https://instagram.com/p'']
   \<and> instagram (mine ''instagram.com/p/xyz'') = [''https://instagram.com/p'']
   \<and> filter isProfile (instagramLinks ''instagram.com/p/xyz'') = [''https://instagram.com/p'']
   \<and> filter isProfile (instagramLinks html) = instagramLinks html
   \<and> instagram (mine html) = instagramLinks html
   \<and> selectProfiles [''instagram.com/p/xyz''] = [''instagram.com/p/xyz'']
   \<and> selectProfiles [''instagram.com/brandname'', ''instagram.com/p/xyz'']
       = [''instagram.com/brandname'']"
proof -
  have "selectProfiles [''instagram.com/p/xyz''] = [''instagram.com/p/xyz'']"
    by code_simp
  moreover have "selectProfiles [''instagram.com/brandname'', ''instagram.com/p/xyz'']
       = [''instagram.com/brandname'']"
    by code_simp
  moreover
  have "mineInstagram ''instagram.com/brandname instagram.com/p/xyz''
     = [''https://instagram.com/brandname'', ''https://instagram.com/p'']"
    by code_simp
  moreover have "mineInstagram ''instagram.com/p/xyz'' = [''https://instagram.com/p'']"
    by code_simp
  moreover have "filter isProfile (instagramLinks ''instagram.com/p/xyz'') = [''https://instagram.com/p'']"
    by code_simp
  ultimately show ?thesis
    by (simp add: mine_def profile_filter_keeps_all mineInstagram_is_raw)
qed

section \<open>Properties of enrichment, discovery and processing\<close>








lemma visitPages_visited: "snd (visitPages w us c) = us"
  by (induction us arbitrary: c) (simp_all add: split_beta)

lemma visitPages_emails:
  "set (emails (fst (visitPages w us c)))
     = set (emails c) \<union> (\<Union>u \<in> set us. set (emails (extractFromPage w u)))"
  by (induction us arbitrary: c) (auto simp: split_beta mergeInfo_def newSet_set)

lemma visitPages_facebook:
  "set (facebook (fst (visitPages w us c)))
     = set (facebook c) \<union> (\<Union>u \<in> set us. set (facebook (extractFromPage w u)))"
  by (induction us arbitrary: c) (auto simp: split_beta mergeInfo_def newSet_set)

lemma visitPages_instagram:
  "set (instagram (fst (visitPages w us c)))
     = set (instagram c) \<union> (\<Union>u \<in> set us. set (instagram (extractFromPage w u)))"
  by (induction us arbitrary: c) (auto simp: split_beta mergeInfo_def newSet_set)

lemma enrich_result:
  "launchOk w url \<Longrightarrow> newPageOk w url \<Longrightarrow> closeOk w url \<Longrightarrow>
     extractContactInfoFromWebsite w url visit =
       Inr (visitPages w
             (if truthy (defaultTrue visit) \<and> needsMore (extractFromPage w url)
              then take 3 (findInternalPages w url) else [])
             (extractFromPage w url))"
  by (simp add: extractContactInfoFromWebsite_def Let_def)

lemma processFrom_append:
  "processFrom w visit m i (bs1 @ bs2) =
     processFrom w visit m i bs1 @ processFrom w visit m (i + length bs1) bs2"
  by (induction bs1 arbitrary: i) auto

lemma processBusiness_rows:
  "processBusiness w visit page b \<noteq> []
   \<and> (\<forall>r \<in> set (processBusiness w visit page b). lead_name r = name b \<and> maps_link r = link b)"
  by (auto simp: processBusiness_def emptyLead_def Let_def split: option.splits prod.splits)

lemma processBusiness_failed:
  "\<not> opens page \<or> phoneText page = None \<or> websiteHref page = None \<or> ratingReviews page = None \<Longrightarrow>
     processBusiness w visit page b = [emptyLead b]"
  by (auto simp: processBusiness_def split: option.splits)

subsection \<open>The scroll loop\<close>





subsection \<open>The listings processed\<close>

text \<open>
  C4, as stated, fails: the anchors read after the scroll loop are processed as they
  stand. Two anchors with the same link give two processed listings, and two rows, with
  that link.
\<close>

theorem duplicate_links_counterexample:
  "processed (feedAnchors twinFeed) (Num 2)
     = [\<lparr>name = ''A'', link = ''https://maps.test/a''\<rparr>, \<lparr>name = ''A'', link = ''https://maps.test/a''\<rparr>]
   \<and> \<not> distinct (map link (processed (feedAnchors twinFeed) (Num 2)))
   \<and> (case scrapeGoogleMaps shopWeb twinFeed (Num 2) (JBool True) of
         Inl e \<Rightarrow> []
       | Inr rows \<Rightarrow> map maps_link rows) = [''https://maps.test/a'', ''https://maps.test/a'']"
  by code_simp

text \<open>
  C4, amended. The listings processed are the first \<open>min(loadedCount, targetCount)\<close> of
  the anchors read after the scroll loop, in their order and without deduplication:
  their links are the first links of the anchors as they stand, their number is
  \<open>min(loadedCount, targetCount)\<close> for a target count that is a number not below 0, and
  none is processed for a negative target count or NaN.
\<close>

theorem processed_listings:
  "map link (processed bs target) = take (iterations (length bs) target) (map link bs)
   \<and> (\<exists>rest. bs = processed bs target @ rest)
   \<and> (0 \<le> t \<longrightarrow> int (length (processed bs (Num t))) = min (int (length bs)) t)
   \<and> (t < 0 \<longrightarrow> processed bs (Num t) = [])
   \<and> processed bs NaN = []
   \<and> (searchOpens m \<and> Crashed \<notin> set (scrollLoop m target 0 0 0) \<and> anchorsRead m
        \<and> browserCloses m \<longrightarrow>
        scrapeGoogleMaps w m target visit
          = Inr (processFrom w (defaultTrue visit) m 0 (processed (feedAnchors m) target)))"
proof -
  have "bs = processed bs target @ drop (iterations (length bs) target) bs"
    by (simp add: processed_def)
  then have "\<exists>rest. bs = processed bs target @ rest" ..
  then show ?thesis
    by (simp add: processed_def iterations_def take_map scrapeGoogleMaps_def)
qed

theorem processed_listings_witness:
  "length (processed (feedAnchors fiveFeed) (Num 3)) = 3
   \<and> map link (processed (feedAnchors fiveFeed) (Num 3))
       = [''https://maps.test/a'', ''https://maps.test/b'', ''https://maps.test/c'']
   \<and> processed (feedAnchors fiveFeed) (Num (- 1)) = []
   \<and> (case scrapeGoogleMaps shopWeb fiveFeed (Num 3) (JBool True) of
         Inl e \<Rightarrow> []
       | Inr rows \<Rightarrow> map maps_link rows)
       = [''https://maps.test/a'', ''https://maps.test/b'', ''https://maps.test/c'']"
proof -
  have c: "Crashed \<notin> set (scrollLoop fiveFeed (Num 3) 0 0 0)" by code_simp
  have e: "map link (processed (feedAnchors fiveFeed) (Num 3))
       = [''https://maps.test/a'', ''https://maps.test/b'', ''https://maps.test/c'']"
    by code_simp
  have r: "map maps_link (processFrom shopWeb (JBool True) fiveFeed 0
             (processed (feedAnchors fiveFeed) (Num 3)))
       = [''https://maps.test/a'', ''https://maps.test/b'', ''https://maps.test/c'']"
    by code_simp
  from processed_listings [where bs = "feedAnchors fiveFeed" and target = "Num 3" and t = 3
      and m = fiveFeed and w = shopWeb and visit = "JBool True"] c
  have "int (length (processed (feedAnchors fiveFeed) (Num 3))) = min (int (length (feedAnchors fiveFeed))) 3"
    and "scrapeGoogleMaps shopWeb fiveFeed (Num 3) (JBool True)
          = Inr (processFrom shopWeb (JBool True) fiveFeed 0 (processed (feedAnchors fiveFeed) (Num 3)))"
    by (simp_all add: fiveFeed_def defaultTrue_def)
  moreover have "length (feedAnchors fiveFeed) = 5" by (simp add: fiveFeed_def)
  moreover from processed_listings [where bs = "feedAnchors fiveFeed" and t = "- 1"]
  have "processed (feedAnchors fiveFeed) (Num (- 1)) = []" by simp
  ultimately show ?thesis using e r by simp
qed

subsection \<open>The enrichment policy\<close>

text \<open>
  C6, as stated, fails: with \<open>visitInternalPages\<close> false no internal page is visited,
  although the homepage bundle is not sufficient and there are candidate pages.
\<close>

theorem visit_flag_counterexample:
  "needsMore (extractFromPage shopWeb ''http://s.test'')
   \<and> findInternalPages shopWeb ''http://s.test''
       = [''http://s.test/contact'', ''http://s.test/about'', ''http://s.test/team'',
          ''http://s.test/staff'']
   \<and> extractContactInfoFromWebsite shopWeb ''http://s.test'' (JBool False)
       = Inr (\<lparr>emails = [''a@s.co''], facebook = [], instagram = []\<rparr>, [])"
  by code_simp

text \<open>
  C6, amended. When the browser session for the website works, enrichment mines the
  homepage first and visits internal pages exactly when \<open>visitInternalPages\<close> is truthy and
  the homepage bundle is not sufficient (one of emails, facebook, instagram is empty);
  the pages visited are then the first three candidates, however many there are; the
  final bundle is, field by field, the union of the homepage's and the visited pages'
  results; a page whose mining fails contributes the empty bundle and the other pages
  are visited all the same.
\<close>

theorem enrichment_policy:
  "launchOk w url \<Longrightarrow> newPageOk w url \<Longrightarrow> closeOk w url \<Longrightarrow>
     (\<exists>info visited.
        extractContactInfoFromWebsite w url visit = Inr (info, visited)
        \<and> visited = (if truthy (defaultTrue visit) \<and> needsMore (extractFromPage w url)
                      then take 3 (findInternalPages w url) else [])
        \<and> length visited \<le> 3
        \<and> (visited = [] \<longrightarrow> info = extractFromPage w url)
        \<and> set (emails info) = set (emails (extractFromPage w url))
             \<union> (\<Union>u \<in> set visited. set (emails (extractFromPage w u)))
        \<and> set (facebook info) = set (facebook (extractFromPage w url))
             \<union> (\<Union>u \<in> set visited. set (facebook (extractFromPage w u)))
        \<and> set (instagram info) = set (instagram (extractFromPage w url))
             \<union> (\<Union>u \<in> set visited. set (instagram (extractFromPage w u))))
     \<and> (content w u = None \<longrightarrow> extractFromPage w u = emptyInfo)"
proof -
  assume ok: "launchOk w url" "newPageOk w url" "closeOk w url"
  let ?home = "extractFromPage w url"
  let ?V = "if truthy (defaultTrue visit) \<and> needsMore ?home
            then take 3 (findInternalPages w url) else []"
  let ?info = "fst (visitPages w ?V ?home)"
  have "visitPages w ?V ?home = (?info, ?V)"
    by (simp only: prod_eq_iff fst_conv snd_conv visitPages_visited simp_thms)
  with enrich_result [OF ok, of visit]
  have res: "extractContactInfoFromWebsite w url visit = Inr (?info, ?V)"
    by (simp only:)
  have len: "length ?V \<le> 3" by simp
  have nil: "?V = [] \<longrightarrow> ?info = ?home"
  proof
    assume "?V = []"
    then show "?info = ?home" by (simp only: visitPages.simps fst_conv)
  qed
  have fail: "content w u = None \<longrightarrow> extractFromPage w u = emptyInfo"
    by (simp add: extractFromPage_def)
  have "\<exists>info visited.
        extractContactInfoFromWebsite w url visit = Inr (info, visited)
        \<and> visited = ?V
        \<and> length visited \<le> 3
        \<and> (visited = [] \<longrightarrow> info = ?home)
        \<and> set (emails info) = set (emails ?home)
             \<union> (\<Union>u \<in> set visited. set (emails (extractFromPage w u)))
        \<and> set (facebook info) = set (facebook ?home)
             \<union> (\<Union>u \<in> set visited. set (facebook (extractFromPage w u)))
        \<and> set (instagram info) = set (instagram ?home)
             \<union> (\<Union>u \<in> set visited. set (instagram (extractFromPage w u)))"
  proof (intro exI conjI)
    show "extractContactInfoFromWebsite w url visit = Inr (?info, ?V)" by (rule res)
    show "?V = ?V" by (rule refl)
    show "length ?V \<le> 3" by (rule len)
    show "?V = [] \<longrightarrow> ?info = ?home" by (rule nil)
    show "set (emails ?info) = set (emails ?home)
             \<union> (\<Union>u \<in> set ?V. set (emails (extractFromPage w u)))"
      by (rule visitPages_emails)
    show "set (facebook ?info) = set (facebook ?home)
             \<union> (\<Union>u \<in> set ?V. set (facebook (extractFromPage w u)))"
      by (rule visitPages_facebook)
    show "set (instagram ?info) = set (instagram ?home)
             \<union> (\<Union>u \<in> set ?V. set (instagram (extractFromPage w u)))"
      by (rule visitPages_instagram)
  qed
  from this fail show ?thesis by (rule conjI)
qed

theorem enrichment_policy_witness:
  "extractContactInfoFromWebsite shopWeb ''http://s.test'' (JBool True)
     = Inr (\<lparr>emails = [''a@s.co'', ''b@s.co''], facebook = [''https://facebook.com/shop''],
             instagram = []\<rparr>,
            [''http://s.test/contact'', ''http://s.test/about'', ''http://s.test/team''])
   \<and> content shopWeb ''http://s.test/about'' = None
   \<and> extractFromPage shopWeb ''http://s.test/about'' = emptyInfo"
proof -
  have ok: "launchOk shopWeb ''http://s.test''" "newPageOk shopWeb ''http://s.test''"
    "closeOk shopWeb ''http://s.test''"
    by (simp_all add: shopWeb_def)
  have e: "extractContactInfoFromWebsite shopWeb ''http://s.test'' (JBool True)
     = Inr (\<lparr>emails = [''a@s.co'', ''b@s.co''], facebook = [''https://facebook.com/shop''],
             instagram = []\<rparr>,
            [''http://s.test/contact'', ''http://s.test/about'', ''http://s.test/team''])"
    by code_simp
  have n: "content shopWeb ''http://s.test/about'' = None" by (simp add: shopWeb_def)
  from enrichment_policy [OF ok, where u = "''http://s.test/about''" and visit = "JBool True"] n e
  show ?thesis by simp
qed

subsection \<open>Failures while processing a listing\<close>

text \<open>
  C9, as stated, fails: when the step that fails is the website enrichment (here the
  browser for the website cannot be launched), the row of the listing keeps the phone,
  website, rating and reviews read from the detail page; only its contact fields are
  empty.
\<close>

theorem enrichment_failure_counterexample:
  "extractContactInfoFromWebsite downWeb ''http://s.test'' (JBool True) = Inl Thrown
   \<and> processBusiness downWeb (JBool True) shopPage shop
       = [\<lparr>lead_name = ''Shop'', maps_link = ''https://maps.test/shop'', phone = ''555 0100'',
            website = ''http://s.test'', rating = ''4.5'', reviews = ''12'', lead_emails = [],
            lead_facebook = [], lead_instagram = []\<rparr>]"
  by code_simp

text \<open>
  C9, amended. Every iteration of the processing loop pushes at least one row, and every
  row it pushes carries the name and the maps link of its listing. When a step on the
  detail page fails (opening it, or reading the phone, the website or the rating), the
  rows pushed are exactly the one row with all other fields empty. When these steps
  succeed, the first row pushed carries the values read, with the contact fields of the
  bundle, which is empty when there is no website or the enrichment throws. The rows of
  a run are the rows of its listings one after the other, each depending only on its own
  listing and detail page, so a failure on one listing leaves the rows of the others as
  they are.
\<close>

theorem listing_failure_isolated:
  "processBusiness w visit page b \<noteq> []
   \<and> (\<forall>r \<in> set (processBusiness w visit page b). lead_name r = name b \<and> maps_link r = link b)
   \<and> (\<not> opens page \<or> phoneText page = None \<or> websiteHref page = None
        \<or> ratingReviews page = None \<longrightarrow>
      processBusiness w visit page b
        = [\<lparr>lead_name = name b, maps_link = link b, phone = [], website = [], rating = [],
             reviews = [], lead_emails = [], lead_facebook = [], lead_instagram = []\<rparr>])
   \<and> (opens page \<and> phoneText page = Some ph \<and> websiteHref page = Some site
        \<and> ratingReviews page = Some (rt, rv) \<longrightarrow>
      (\<exists>rest. processBusiness w visit page b
        = \<lparr>lead_name = name b, maps_link = link b, phone = ph, website = site, rating = rt,
            reviews = rv, lead_emails = join (emails (contactFor w visit site)),
            lead_facebook = join (facebook (contactFor w visit site)),
            lead_instagram = join (instagram (contactFor w visit site))\<rparr> # rest))
   \<and> (site = [] \<or> extractContactInfoFromWebsite w site visit = Inl Thrown \<longrightarrow>
        contactFor w visit site = emptyInfo)
   \<and> processFrom w visit m i (bs1 @ b # bs2)
       = processFrom w visit m i bs1 @ processBusiness w visit (detail m (i + length bs1)) b
         @ processFrom w visit m (i + length bs1 + 1) bs2"
proof -
  have a: "processBusiness w visit page b \<noteq> []
     \<and> (\<forall>r \<in> set (processBusiness w visit page b). lead_name r = name b \<and> maps_link r = link b)"
    by (rule processBusiness_rows)
  have f: "\<not> opens page \<or> phoneText page = None \<or> websiteHref page = None
        \<or> ratingReviews page = None \<longrightarrow>
      processBusiness w visit page b
        = [\<lparr>lead_name = name b, maps_link = link b, phone = [], website = [], rating = [],
             reviews = [], lead_emails = [], lead_facebook = [], lead_instagram = []\<rparr>]"
    using processBusiness_failed [of page w visit b] by (auto simp: emptyLead_def)
  have g: "opens page \<and> phoneText page = Some ph \<and> websiteHref page = Some site
        \<and> ratingReviews page = Some (rt, rv) \<longrightarrow>
      (\<exists>rest. processBusiness w visit page b
        = \<lparr>lead_name = name b, maps_link = link b, phone = ph, website = site, rating = rt,
            reviews = rv, lead_emails = join (emails (contactFor w visit site)),
            lead_facebook = join (facebook (contactFor w visit site)),
            lead_instagram = join (instagram (contactFor w visit site))\<rparr> # rest)"
    by (simp add: processBusiness_def Let_def)
  have c: "site = [] \<or> extractContactInfoFromWebsite w site visit = Inl Thrown \<longrightarrow>
        contactFor w visit site = emptyInfo"
    by (auto simp: contactFor_def)
  have p: "processFrom w visit m i (bs1 @ b # bs2)
       = processFrom w visit m i bs1 @ processBusiness w visit (detail m (i + length bs1)) b
         @ processFrom w visit m (i + length bs1 + 1) bs2"
    by (simp add: processFrom_append)
  from a f g c p show ?thesis by blast
qed

theorem listing_failure_isolated_witness:
  "(case scrapeGoogleMaps shopWeb fiveFeed (Num 3) (JBool True) of Inl e \<Rightarrow> [] | Inr rows \<Rightarrow> rows)
     = [\<lparr>lead_name = ''A'', maps_link = ''https://maps.test/a'', phone = ''555 0100'',
          website = [], rating = ''4.5'', reviews = ''12'', lead_emails = [],
          lead_facebook = [], lead_instagram = []\<rparr>,
        \<lparr>lead_name = ''B'', maps_link = ''https://maps.test/b'', phone = [],
          website = [], rating = [], reviews = [], lead_emails = [],
          lead_facebook = [], lead_instagram = []\<rparr>,
        \<lparr>lead_name = ''C'', maps_link = ''https://maps.test/c'', phone = ''555 0100'',
          website = [], rating = ''4.5'', reviews = ''12'', lead_emails = [],
          lead_facebook = [], lead_instagram = []\<rparr>]
   \<and> processBusiness shopWeb (JBool True) (detail fiveFeed 1) \<lparr>name = ''B'', link = ''https://maps.test/b''\<rparr>
     = [\<lparr>lead_name = ''B'', maps_link = ''https://maps.test/b'', phone = [],
          website = [], rating = [], reviews = [], lead_emails = [],
          lead_facebook = [], lead_instagram = []\<rparr>]
   \<and> contactFor downWeb (JBool True) ''http://s.test'' = emptyInfo"
proof -
  have e: "(case scrapeGoogleMaps shopWeb fiveFeed (Num 3) (JBool True) of Inl e \<Rightarrow> [] | Inr rows \<Rightarrow> rows)
     = [\<lparr>lead_name = ''A'', maps_link = ''https://maps.test/a'', phone = ''555 0100'',
          website = [], rating = ''4.5'', reviews = ''12'', lead_emails = [],
          lead_facebook = [], lead_instagram = []\<rparr>,
        \<lparr>lead_name = ''B'', maps_link = ''https://maps.test/b'', phone = [],
          website = [], rating = [], reviews = [], lead_emails = [],
          lead_facebook = [], lead_instagram = []\<rparr>,
        \<lparr>lead_name = ''C'', maps_link = ''https://maps.test/c'', phone = ''555 0100'',
          website = [], rating = ''4.5'', reviews = ''12'', lead_emails = [],
          lead_facebook = [], lead_instagram = []\<rparr>]"
    by code_simp
  have o: "\<not> opens (detail fiveFeed 1)" by (simp add: fiveFeed_def)
  have t: "extractContactInfoFromWebsite downWeb ''http://s.test'' (JBool True) = Inl Thrown"
    by code_simp
  from listing_failure_isolated [where page = "detail fiveFeed 1" and w = shopWeb
      and visit = "JBool True" and b = "\<lparr>name = ''B'', link = ''https://maps.test/b''\<rparr>"] o
  have "processBusiness shopWeb (JBool True) (detail fiveFeed 1) \<lparr>name = ''B'', link = ''https://maps.test/b''\<rparr>
     = [\<lparr>lead_name = ''B'', maps_link = ''https://maps.test/b'', phone = [],
          website = [], rating = [], reviews = [], lead_emails = [],
          lead_facebook = [], lead_instagram = []\<rparr>]"
    by simp
  moreover from listing_failure_isolated [where w = downWeb and site = "''http://s.test''"
      and visit = "JBool True"] t
  have "contactFor downWeb (JBool True) ''http://s.test'' = emptyInfo" by simp
  ultimately show ?thesis using e by simp
qed

end
